theory Spec2Isabelle
  imports Complex_Main "HOL-Library.Word"
begin

unbundle bit_operations_syntax

section \<open>Machine model\<close>

text \<open>
  The allocator runs on a 64-bit target: \<open>word_t\<close> is \<open>uint64_t\<close>, \<open>size_t\<close> and every
  pointer are 64 bits wide.  Pointers are modelled by their address; \<open>NULL\<close> is address 0.
  Memory is a map from the address of a word to its contents (every access of the
  allocator is to a whole, 8-byte aligned word).  Arithmetic on \<open>size_t\<close> and on pointers
  wraps around modulo \<open>2 ^ 64\<close>, as \<open>+\<close> on \<open>64 word\<close> does.
\<close>

type_synonym word_t = "64 word"
type_synonym size_t = "64 word"
type_synonym addr = "64 word"
type_synonym mem = "addr \<Rightarrow> word_t"

datatype fault = AssertionFailed | OutOfBounds | NullDeref

abbreviation NULL :: addr where
  "NULL \<equiv> 0"

subsection \<open>Constants (malloc.h, thread\_cache.h)\<close>

definition alloc_mask :: word_t where
  "alloc_mask = 0x1"

definition prev_alloc_mask :: word_t where
  "prev_alloc_mask = 0x2"

definition size_mask :: word_t where
  "size_mask = NOT 0xF"

definition wsize :: size_t where
  "wsize = 8"

definition dsize :: size_t where
  "dsize = 2 * wsize"

definition min_block_size :: size_t where
  "min_block_size = 2 * dsize"

definition CHUNK_SIZE :: size_t where
  "CHUNK_SIZE = push_bit 12 1"

definition ARENA_MAX_SIZE :: size_t where
  "ARENA_MAX_SIZE = push_bit 15 CHUNK_SIZE"

definition MAXLISTS :: nat where
  "MAXLISTS = 15"

definition MAX_SEGLIST_SEARCH :: nat where
  "MAX_SEGLIST_SEARCH = 15"

definition CACHE_MAX_ENTRIES :: nat where
  "CACHE_MAX_ENTRIES = 8"

definition CACHE_MAX_SIZE :: size_t where
  "CACHE_MAX_SIZE = push_bit 20 1"

subsection \<open>Block metadata codec\<close>

definition pack :: "size_t \<Rightarrow> bool \<Rightarrow> bool \<Rightarrow> word_t" where
  "pack sz alloc prev_alloc =
     (let word = sz;
          word = (if alloc then word OR alloc_mask else word);
          word = (if prev_alloc then word OR prev_alloc_mask else word)
      in word)"

definition extract_size :: "word_t \<Rightarrow> size_t" where
  "extract_size word = word AND size_mask"

definition extract_alloc :: "word_t \<Rightarrow> bool" where
  "extract_alloc word = (word AND alloc_mask \<noteq> 0)"

definition extract_prev_alloc :: "word_t \<Rightarrow> bool" where
  "extract_prev_alloc word = (word AND prev_alloc_mask \<noteq> 0)"

text \<open>A block pointer is the address of the block's header word.\<close>

definition get_size :: "mem \<Rightarrow> addr \<Rightarrow> size_t" where
  "get_size m block = extract_size (m block)"

definition get_alloc :: "mem \<Rightarrow> addr \<Rightarrow> bool" where
  "get_alloc m block = extract_alloc (m block)"

definition get_prev_alloc :: "mem \<Rightarrow> addr \<Rightarrow> bool" where
  "get_prev_alloc m block = extract_prev_alloc (m block)"

definition round_up :: "size_t \<Rightarrow> size_t \<Rightarrow> size_t" where
  "round_up sz n = (if sz \<le> n then 2 * n else n * ((sz + (n - 1)) div n))"

definition max_sz :: "size_t \<Rightarrow> size_t \<Rightarrow> size_t" where
  "max_sz x y = (if x > y then x else y)"

text \<open>\<open>offsetof(block_t, payload)\<close> is one word: the payload follows the header.\<close>

definition payload_to_header :: "addr \<Rightarrow> addr" where
  "payload_to_header bp = bp - wsize"

definition header_to_payload :: "addr \<Rightarrow> addr" where
  "header_to_payload block = block + wsize"

section \<open>Thread cache (thread\_cache.c)\<close>

text \<open>
  \<open>cache_t\<close>: the slot array \<open>elems\<close> (a slot holding \<open>NULL\<close> is empty), the counters
  \<open>num_entries\<close> and \<open>total_size\<close> (both \<open>size_t\<close>) and \<open>front\<close>.  The source declares
  \<open>front\<close> as \<open>int\<close>; it only ever holds \<open>CACHE_MAX_ENTRIES\<close> or a slot index, so it is a
  natural number here.
\<close>

record cache =
  elems :: "addr list"
  num_entries :: size_t
  total_size :: size_t
  front :: nat

definition cache_init :: "cache \<Rightarrow> cache" where
  "cache_init c =
     c\<lparr>elems := replicate CACHE_MAX_ENTRIES NULL,
       num_entries := 0,
       total_size := 0,
       front := CACHE_MAX_ENTRIES\<rparr>"

text \<open>The loop \<open>while (c->front < CACHE_MAX_ENTRIES && !c->elems[c->front]) c->front++\<close>.\<close>

function advance_front :: "addr list \<Rightarrow> nat \<Rightarrow> nat" where
  "advance_front es f =
     (if f < CACHE_MAX_ENTRIES \<and> es ! f = NULL then advance_front es (Suc f) else f)"
  by pat_completeness auto
termination
  by (relation "measure (\<lambda>(es, f). CACHE_MAX_ENTRIES - f)") auto

declare advance_front.simps [simp del]

text \<open>The \<open>for\<close> loop of \<open>cache_add\<close>, entered at index \<open>i\<close>.\<close>

function cache_add_loop :: "cache \<Rightarrow> addr \<Rightarrow> size_t \<Rightarrow> nat \<Rightarrow> cache" where
  "cache_add_loop c block bsize i =
     (if i < CACHE_MAX_ENTRIES then
        (if elems c ! i = NULL then
           c\<lparr>num_entries := num_entries c + 1,
             total_size := total_size c + bsize,
             elems := (elems c)[i := block],
             front := (if i < front c then i else front c)\<rparr>
         else cache_add_loop c block bsize (Suc i))
      else c)"
  by pat_completeness auto
termination
  by (relation "measure (\<lambda>(c, block, bsize, i). CACHE_MAX_ENTRIES - i)") auto

declare cache_add_loop.simps [simp del]

definition cache_add :: "mem \<Rightarrow> cache \<Rightarrow> addr \<Rightarrow> bool \<times> cache" where
  "cache_add m c block =
     (if num_entries c = of_nat CACHE_MAX_ENTRIES then (False, c)
      else let bsize = get_size m block in
        if total_size c + bsize > CACHE_MAX_SIZE then (False, c)
        else (True, cache_add_loop c block bsize 0))"

text \<open>
  \<open>cache_evict\<close> starts with \<open>assert(c->num_entries > 0)\<close>; \<open>assert.h\<close> is included with
  \<open>NDEBUG\<close> undefined, so a failed assertion aborts.  A read of \<open>elems[front]\<close> with
  \<open>front\<close> outside the array is a fault as well.
\<close>

definition cache_evict :: "mem \<Rightarrow> cache \<Rightarrow> fault + (addr \<times> cache)" where
  "cache_evict m c =
     (if \<not> num_entries c > 0 then Inl AssertionFailed
      else if \<not> front c < CACHE_MAX_ENTRIES then Inl OutOfBounds
      else
        let result = elems c ! front c;
            es = (elems c)[front c := NULL]
        in Inr (result,
                c\<lparr>total_size := total_size c - get_size m result,
                  num_entries := num_entries c - 1,
                  elems := es,
                  front := advance_front es (front c)\<rparr>))"

text \<open>The \<open>for\<close> loop of \<open>cache_query\<close>, entered at index \<open>i\<close>.\<close>

function cache_query_loop :: "mem \<Rightarrow> cache \<Rightarrow> size_t \<Rightarrow> nat \<Rightarrow> addr \<times> cache" where
  "cache_query_loop m c sz i =
     (if i < CACHE_MAX_ENTRIES then
        (if elems c ! i = NULL then cache_query_loop m c sz (Suc i)
         else
           let b = elems c ! i;
               bsize = get_size m b
           in if bsize \<ge> sz then
                let es = (elems c)[i := NULL];
                    c1 = c\<lparr>elems := es,
                           total_size := total_size c - bsize,
                           num_entries := num_entries c - 1\<rparr>
                in (b, if i = front c1 then c1\<lparr>front := advance_front es (front c1)\<rparr> else c1)
              else cache_query_loop m c sz (Suc i))
      else (NULL, c))"
  by pat_completeness auto
termination
  by (relation "measure (\<lambda>(m, c, sz, i). CACHE_MAX_ENTRIES - i)") auto

declare cache_query_loop.simps [simp del]

definition cache_query :: "mem \<Rightarrow> cache \<Rightarrow> size_t \<Rightarrow> addr \<times> cache" where
  "cache_query m c sz = cache_query_loop m c sz (front c)"

subsection \<open>The cache invariant\<close>

text \<open>
  The blocks held are the non-\<open>NULL\<close> slots; \<open>first_occupied\<close> is the smallest index of
  such a slot, and the number of slots when there is none.
\<close>

definition held :: "addr list \<Rightarrow> addr list" where
  "held es = filter (\<lambda>b. b \<noteq> NULL) es"

definition first_occupied :: "addr list \<Rightarrow> nat" where
  "first_occupied es = length (takeWhile (\<lambda>b. b = NULL) es)"

definition cache_inv :: "mem \<Rightarrow> cache \<Rightarrow> bool" where
  "cache_inv m c \<longleftrightarrow>
     length (elems c) = CACHE_MAX_ENTRIES \<and>
     num_entries c = of_nat (length (held (elems c))) \<and>
     total_size c = sum_list (map (get_size m) (held (elems c))) \<and>
     front c = first_occupied (elems c)"

section \<open>Heap manager (the arena variants of naive\_malloc.c)\<close>

text \<open>
  \<open>arena_t\<close> without its mutex: the model is of one thread's calls, in sequence, and the
  lock operations leave the data untouched.  The field \<open>size\<close> is \<open>arena_size\<close> here.
\<close>

record arena =
  low :: addr
  arena_size :: size_t
  heap_start :: addr
  heap_end :: addr
  seglists :: "addr list"

text \<open>The link fields of \<open>block_t\<close> overlay the payload: one and two words after the header.\<close>

definition prevBlockInList :: "addr \<Rightarrow> addr" where
  "prevBlockInList block = block + 8"

definition nextBlockInList :: "addr \<Rightarrow> addr" where
  "nextBlockInList block = block + 16"

definition header_to_footer :: "mem \<Rightarrow> addr \<Rightarrow> addr" where
  "header_to_footer m block = header_to_payload block + get_size m block - dsize"

definition footer_to_header :: "mem \<Rightarrow> addr \<Rightarrow> addr" where
  "footer_to_header m footer = (let sz = extract_size (m footer) in footer + wsize - sz)"

definition write_epilogue :: "mem \<Rightarrow> addr \<Rightarrow> bool \<Rightarrow> mem" where
  "write_epilogue m block prev_alloc = m(block := pack 0 True prev_alloc)"

definition write_block :: "mem \<Rightarrow> addr \<Rightarrow> size_t \<Rightarrow> bool \<Rightarrow> bool \<Rightarrow> mem" where
  "write_block m block sz alloc prev_alloc =
     (if \<not> alloc then
        let m1 = m(block := pack sz alloc prev_alloc);
            footerp = header_to_footer m1 block
        in m1(footerp := pack sz alloc prev_alloc)
      else m(block := pack sz alloc prev_alloc))"

definition find_next :: "mem \<Rightarrow> addr \<Rightarrow> addr" where
  "find_next m block = block + get_size m block"

definition find_prev_footer :: "addr \<Rightarrow> addr" where
  "find_prev_footer block = block - wsize"

definition find_prev :: "mem \<Rightarrow> addr \<Rightarrow> addr" where
  "find_prev m block = footer_to_header m (find_prev_footer block)"

subsection \<open>Segregated free lists\<close>

text \<open>
  The loop of \<open>find_list_for_block\<close>.  The index is a \<open>size_t\<close> in the source and never
  exceeds \<open>MAXLISTS - 1\<close>.
\<close>

function list_for_size_loop :: "size_t \<Rightarrow> nat \<Rightarrow> nat" where
  "list_for_size_loop sz list_ind =
     (if sz \<noteq> 0 \<and> list_ind < MAXLISTS - 1
      then list_for_size_loop (drop_bit 1 sz) (Suc list_ind) else list_ind)"
  by pat_completeness auto
termination
  by (relation "measure (\<lambda>(sz, list_ind). MAXLISTS - 1 - list_ind)") auto

declare list_for_size_loop.simps [simp del]

definition find_list_for_block :: "mem \<Rightarrow> addr \<Rightarrow> nat" where
  "find_list_for_block m block = list_for_size_loop (drop_bit 6 (get_size m block)) 0"

definition add_to_free_list :: "mem \<Rightarrow> arena \<Rightarrow> addr \<Rightarrow> mem \<times> arena" where
  "add_to_free_list m a block =
     (let list_ind = find_list_for_block m block in
      if seglists a ! list_ind = block then (m, a)
      else if seglists a ! list_ind = NULL then
        (let a1 = a\<lparr>seglists := (seglists a)[list_ind := block]\<rparr>;
             m1 = m(prevBlockInList (seglists a1 ! list_ind) := NULL);
             m2 = m1(nextBlockInList (seglists a1 ! list_ind) := NULL)
         in (m2, a1))
      else
        (let oldStart = seglists a ! list_ind;
             m1 = m(nextBlockInList block := seglists a ! list_ind);
             m2 = m1(prevBlockInList oldStart := block);
             m3 = m2(prevBlockInList block := NULL)
         in (m3, a\<lparr>seglists := (seglists a)[list_ind := block]\<rparr>)))"

definition delete_from_free_list :: "mem \<Rightarrow> arena \<Rightarrow> addr \<Rightarrow> mem \<times> arena" where
  "delete_from_free_list m a block =
     (let list_ind = find_list_for_block m block in
      if seglists a ! list_ind = NULL then (m, a)
      else
        let next = m (nextBlockInList block);
            prev = m (prevBlockInList block)
        in if prev \<noteq> NULL \<and> next \<noteq> NULL then
             (let m1 = m(nextBlockInList prev := next);
                  m2 = m1(prevBlockInList next := prev);
                  m3 = m2(prevBlockInList block := NULL);
                  m4 = m3(nextBlockInList block := NULL)
              in (m4, a))
           else if prev \<noteq> NULL \<and> next = NULL then
             (m(nextBlockInList prev := NULL), a)
           else if prev = NULL \<and> next \<noteq> NULL then
             (m(prevBlockInList next := NULL), a\<lparr>seglists := (seglists a)[list_ind := next]\<rparr>)
           else (m, a\<lparr>seglists := (seglists a)[list_ind := NULL]\<rparr>))"

text \<open>
  The loop of \<open>search_list\<close>; \<open>count\<close> is the number of blocks visited so far.  It returns
  what \<open>search_list\<close> returns once the loop is over: \<open>best_fit\<close>, which is \<open>NULL\<close> when no
  block fitted.
\<close>

function search_list_loop :: "mem \<Rightarrow> size_t \<Rightarrow> addr \<Rightarrow> nat \<Rightarrow> addr \<Rightarrow> size_t \<Rightarrow> addr" where
  "search_list_loop m asize block count best_fit fit_error =
     (if block = NULL then best_fit
      else if Suc count > MAX_SEGLIST_SEARCH then best_fit
      else
        let block_size = get_size m block in
        if block_size \<ge> asize then
          (let (best_fit1, fit_error1) =
                 (if best_fit = NULL then (block, block_size - asize)
                  else if block_size - asize < fit_error then (block, block_size - asize)
                  else (best_fit, fit_error))
           in if fit_error1 = 0 then best_fit1
              else search_list_loop m asize (m (nextBlockInList block)) (Suc count)
                     best_fit1 fit_error1)
        else search_list_loop m asize (m (nextBlockInList block)) (Suc count)
               best_fit fit_error)"
  by pat_completeness auto
termination
  by (relation "measure (\<lambda>(m, asize, block, count, best_fit, fit_error).
                  Suc MAX_SEGLIST_SEARCH - count)") auto

declare search_list_loop.simps [simp del]

definition search_list :: "mem \<Rightarrow> addr \<Rightarrow> size_t \<Rightarrow> addr" where
  "search_list m list_start asize =
     (if list_start = NULL then NULL
      else search_list_loop m asize list_start 0 NULL asize)"

text \<open>The \<open>while (size != 0)\<close> loop of \<open>find_fit\<close>, which computes the class of \<open>asize\<close>.\<close>

function min_list_loop :: "size_t \<Rightarrow> nat \<Rightarrow> nat" where
  "min_list_loop sz min_list_ind =
     (if sz \<noteq> 0 then min_list_loop (drop_bit 1 sz) (Suc min_list_ind) else min_list_ind)"
  by pat_completeness auto
termination
proof (relation "measure (\<lambda>(sz, min_list_ind). unat sz)")
  show "wf (measure (\<lambda>(sz :: size_t, min_list_ind :: nat). unat sz))"
    by simp
next
  fix sz :: size_t and min_list_ind :: nat
  assume "sz \<noteq> 0"
  then have "0 < unat sz"
    by (simp add: unat_gt_0)
  then have "unat sz div 2 < unat sz"
    by simp
  then show "((drop_bit 1 sz, Suc min_list_ind), (sz, min_list_ind))
               \<in> measure (\<lambda>(sz, min_list_ind). unat sz)"
    by (simp add: drop_bit_eq_div unat_div)
qed

declare min_list_loop.simps [simp del]

definition min_list_for :: "size_t \<Rightarrow> nat" where
  "min_list_for asize =
     (let min_list_ind = min_list_loop (drop_bit 6 asize) 0
      in if min_list_ind > MAXLISTS - 1 then MAXLISTS - 1 else min_list_ind)"

text \<open>
  The probing loop of \<open>find_fit\<close> in the two arena variants:
  \<open>for (list_ind = min_list_ind; list_ind < MAXLISTS && list_ind <= min_list_ind + 1; list_ind++)\<close>.
\<close>

function find_fit_loop :: "mem \<Rightarrow> addr list \<Rightarrow> size_t \<Rightarrow> nat \<Rightarrow> nat \<Rightarrow> addr" where
  "find_fit_loop m sl asize min_list_ind list_ind =
     (if list_ind < MAXLISTS \<and> list_ind \<le> min_list_ind + 1 then
        (let block = search_list m (sl ! list_ind) asize in
         if block \<noteq> NULL then block
         else find_fit_loop m sl asize min_list_ind (Suc list_ind))
      else NULL)"
  by pat_completeness auto
termination
  by (relation "measure (\<lambda>(m, sl, asize, min_list_ind, list_ind). MAXLISTS - list_ind)") auto

declare find_fit_loop.simps [simp del]

definition find_fit :: "mem \<Rightarrow> arena \<Rightarrow> size_t \<Rightarrow> addr" where
  "find_fit m a asize =
     (let min_list_ind = min_list_for asize
      in find_fit_loop m (seglists a) asize min_list_ind min_list_ind)"

text \<open>
  The naive variant keeps its lists in the global \<open>seglists\<close> and defines \<open>SEARCHCOUNT\<close> as
  2.  Its probing loop is
  \<open>for (list_ind = min_list_ind; (list_ind < MAXLISTS) && (min_list_ind + SEARCHCOUNT); list_ind++)\<close>:
  the second conjunct is the truth value of a sum.
\<close>

definition SEARCHCOUNT :: nat where
  "SEARCHCOUNT = 2"

function naive_find_fit_loop :: "mem \<Rightarrow> addr list \<Rightarrow> size_t \<Rightarrow> nat \<Rightarrow> nat \<Rightarrow> addr" where
  "naive_find_fit_loop m sl asize min_list_ind list_ind =
     (if list_ind < MAXLISTS \<and> min_list_ind + SEARCHCOUNT \<noteq> 0 then
        (let block = search_list m (sl ! list_ind) asize in
         if block \<noteq> NULL then block
         else naive_find_fit_loop m sl asize min_list_ind (Suc list_ind))
      else NULL)"
  by pat_completeness auto
termination
  by (relation "measure (\<lambda>(m, sl, asize, min_list_ind, list_ind). MAXLISTS - list_ind)") auto

declare naive_find_fit_loop.simps [simp del]

definition naive_find_fit :: "mem \<Rightarrow> addr list \<Rightarrow> size_t \<Rightarrow> addr" where
  "naive_find_fit m sl asize =
     (let min_list_ind = min_list_for asize
      in naive_find_fit_loop m sl asize min_list_ind min_list_ind)"

subsection \<open>Coalescing, extension, splitting, allocation\<close>

text \<open>
  \<open>coalesce_block\<close>.  Its \<open>assert\<close>s abort when they fail; its \<open>dbg_assert\<close>s compile to
  nothing.  The last two statements, shared by the three merging cases, are
  \<open>coalesce_finish\<close>.
\<close>

definition coalesce_finish :: "mem \<Rightarrow> arena \<Rightarrow> addr \<Rightarrow> fault + (addr \<times> mem \<times> arena)" where
  "coalesce_finish m a block =
     (if block = NULL then Inl AssertionFailed
      else
        let next = find_next m block;
            m1 = write_block m next (get_size m next) (get_alloc m next) False
        in Inr (block, m1, a))"

definition coalesce_block :: "mem \<Rightarrow> arena \<Rightarrow> addr \<Rightarrow> fault + (addr \<times> mem \<times> arena)" where
  "coalesce_block m a block =
     (let next = find_next m block;
          prevAlloc = get_prev_alloc m block;
          nextAlloc = get_alloc m next;
          currSize = get_size m block;
          nextSize = get_size m next
      in
        if prevAlloc \<and> nextAlloc then Inr (block, m, a)
        else if prevAlloc \<and> \<not> nextAlloc then
          (let (m1, a1) = delete_from_free_list m a next;
               m2 = write_block m1 block (currSize + nextSize) False True
           in coalesce_finish m2 a1 block)
        else if \<not> prevAlloc \<and> nextAlloc then
          (let prev = find_prev m block in
           if \<not> prev \<noteq> block then Inl AssertionFailed
           else
             let prevSize = get_size m prev;
                 (m1, a1) = delete_from_free_list m a prev;
                 m2 = write_block m1 prev (currSize + prevSize) False (get_prev_alloc m1 prev)
             in coalesce_finish m2 a1 prev)
        else
          (let prev = find_prev m block;
               prevSize = get_size m prev
           in
           if \<not> prev \<noteq> block then Inl AssertionFailed
           else
             let (m1, a1) = delete_from_free_list m a next;
                 (m2, a2) = delete_from_free_list m1 a1 prev;
                 m3 = write_block m2 prev (currSize + prevSize + nextSize) False
                        (get_prev_alloc m2 prev)
             in coalesce_finish m3 a2 prev))"

text \<open>\<open>extend_arena\<close> (the arena registry's file); the comparison is one of pointers, unsigned.\<close>

definition extend_arena :: "arena \<Rightarrow> size_t \<Rightarrow> addr \<times> arena" where
  "extend_arena a len =
     (let result = heap_end a;
          new_end = heap_end a + len
      in if new_end > low a + arena_size a then (NULL, a)
         else (result, a\<lparr>heap_end := new_end\<rparr>))"

definition extend_arena_heap ::
  "mem \<Rightarrow> arena \<Rightarrow> size_t \<Rightarrow> bool \<Rightarrow> fault + (addr \<times> mem \<times> arena)" where
  "extend_arena_heap m a sz prev_alloc =
     (let sz1 = round_up sz dsize;
          (bp, a1) = extend_arena a sz1
      in if bp = NULL then Inr (NULL, m, a1)
         else
           let block = payload_to_header bp;
               m1 = write_block m block sz1 False prev_alloc;
               block_next = find_next m1 block;
               m2 = write_epilogue m1 block_next False
           in case coalesce_block m2 a1 block of
                Inl f \<Rightarrow> Inl f
              | Inr (block1, m3, a3) \<Rightarrow>
                  (let (m4, a4) = add_to_free_list m3 a3 block1 in Inr (block1, m4, a4)))"

definition split_block :: "mem \<Rightarrow> arena \<Rightarrow> addr \<Rightarrow> size_t \<Rightarrow> mem \<times> arena" where
  "split_block m a block asize =
     (let block_size = get_size m block in
      if block_size - asize \<ge> min_block_size then
        (let m1 = write_block m block asize True (get_prev_alloc m block);
             block_next = find_next m1 block;
             m2 = write_block m1 block_next (block_size - asize) False True
         in add_to_free_list m2 a block_next)
      else (m, a))"

definition mem_heap_hi :: "arena \<Rightarrow> addr" where
  "mem_heap_hi a = heap_end a - 1"

text \<open>The part of \<open>_malloc\<close> after a free block has been found or made.\<close>

definition malloc_place :: "mem \<Rightarrow> arena \<Rightarrow> addr \<Rightarrow> size_t \<Rightarrow> addr \<times> mem \<times> arena" where
  "malloc_place m a block asize =
     (let block_size = get_size m block;
          m1 = write_block m block block_size True (get_prev_alloc m block);
          (m2, a2) = delete_from_free_list m1 a block;
          (m3, a3) = split_block m2 a2 block asize;
          next = find_next m3 block;
          m4 = write_block m3 next (get_size m3 next) (get_alloc m3 next) True
      in (header_to_payload block, m4, a3))"

text \<open>\<open>_malloc(size, arena)\<close> of the arena variants (an Isabelle name cannot start with \<open>_\<close>).\<close>

definition arena_internal_malloc ::
  "mem \<Rightarrow> arena \<Rightarrow> size_t \<Rightarrow> fault + (addr \<times> mem \<times> arena)" where
  "arena_internal_malloc m a sz =
     (if sz = 0 then Inr (NULL, m, a)
      else
        let asize = round_up (sz + wsize) dsize;
            block = find_fit m a asize
        in if block = NULL then
             (let extendsize = max_sz asize CHUNK_SIZE in
              case extend_arena_heap m a extendsize
                     (extract_prev_alloc (m (mem_heap_hi a - 7))) of
                Inl f \<Rightarrow> Inl f
              | Inr (block1, m1, a1) \<Rightarrow>
                  if block1 = NULL then Inr (NULL, m1, a1)
                  else Inr (malloc_place m1 a1 block1 asize))
           else Inr (malloc_place m a block asize))"

subsection \<open>Initialisation of the naive variant\<close>

text \<open>
  The naive variant keeps \<open>heap_start\<close>, \<open>heap_end\<close> and \<open>seglists\<close> in globals and grows
  its heap with \<open>sbrk\<close>; its \<open>write_block\<close>, \<open>coalesce_block\<close> and \<open>add_to_free_list\<close> are
  those above with the globals in place of the arena's fields.  The globals are held in
  an \<open>arena\<close> record here, whose \<open>low\<close> and \<open>arena_size\<close> the naive variant does not have.
  \<open>sbrk\<close> belongs to the C library: \<open>brk\<close> is the program break and \<open>brk_max\<close>, not below
  it, the address beyond which the system refuses to move it; the result is the old
  break, or \<open>(void *) -1\<close> with the break unchanged.
\<close>

definition sbrk :: "addr \<Rightarrow> addr \<Rightarrow> size_t \<Rightarrow> addr \<times> addr" where
  "sbrk brk_max brk incr =
     (if brk_max - brk < incr then (- 1, brk) else (brk, brk + incr))"

definition extend_heap ::
  "addr \<Rightarrow> mem \<Rightarrow> arena \<Rightarrow> addr \<Rightarrow> size_t \<Rightarrow> bool \<Rightarrow> fault + (addr \<times> mem \<times> arena \<times> addr)" where
  "extend_heap brk_max m g brk sz prev_alloc =
     (let sz1 = round_up sz dsize;
          (bp, brk1) = sbrk brk_max brk sz1
      in if bp = - 1 then Inr (NULL, m, g, brk1)
         else
           let g1 = g\<lparr>heap_end := bp + sz1\<rparr>;
               block = payload_to_header bp;
               m1 = write_block m block sz1 False prev_alloc;
               block_next = find_next m1 block;
               m2 = write_epilogue m1 block_next False
           in case coalesce_block m2 g1 block of
                Inl f \<Rightarrow> Inl f
              | Inr (block1, m3, g3) \<Rightarrow>
                  (let (m4, g4) = add_to_free_list m3 g3 block1 in Inr (block1, m4, g4, brk1)))"

text \<open>\<open>mm_init\<close>; the result is \<open>None\<close> where it returns \<open>false\<close>.\<close>

definition mm_init ::
  "addr \<Rightarrow> mem \<Rightarrow> arena \<Rightarrow> addr \<Rightarrow> fault + (mem \<times> arena \<times> addr) option" where
  "mm_init brk_max m g brk =
     (let (start, brk1) = sbrk brk_max brk (2 * wsize);
          g1 = g\<lparr>heap_end := start + 2 * wsize\<rparr>
      in if start = - 1 then Inr None
         else
           let g2 = g1\<lparr>seglists := replicate MAXLISTS NULL\<rparr>;
               m1 = m(start := pack 0 True True);
               m2 = m1(start + wsize := pack 0 True True);
               g3 = g2\<lparr>heap_start := start + wsize\<rparr>
           in case extend_heap brk_max m2 g3 brk1 CHUNK_SIZE True of
                Inl f \<Rightarrow> Inl f
              | Inr (block, m3, g4, brk2) \<Rightarrow>
                  if block = NULL then Inr None else Inr (Some (m3, g4, brk2)))"

section \<open>Arena registry\<close>

text \<open>
  The process-wide state, as one thread sees it: the memory, the arena array with its
  length \<open>max_arenas\<close> (an \<open>int\<close>), the dispatch counter \<open>last_used\<close> (an \<open>int\<close> updated by
  \<open>__atomic_fetch_add\<close>, which wraps around in two's complement) and the thread's cache.
\<close>

record state =
  memory :: mem
  arenas :: "arena list"
  max_arenas :: int
  last_used :: "32 word"
  local_cache :: cache

text \<open>C's \<open>/\<close> and \<open>%\<close> on \<open>int\<close> truncate towards zero.\<close>

definition c_div :: "int \<Rightarrow> int \<Rightarrow> int" where
  "c_div a b = sgn a * sgn b * (\<bar>a\<bar> div \<bar>b\<bar>)"

definition c_mod :: "int \<Rightarrow> int \<Rightarrow> int" where
  "c_mod a b = a - b * c_div a b"

text \<open>
  \<open>get_arena\<close> returns \<open>&arenas[index]\<close>: here the index, when it is one of the array.
\<close>

definition get_arena_index :: "state \<Rightarrow> int" where
  "get_arena_index st = c_mod (sint (last_used st)) (max_arenas st)"

definition get_arena :: "state \<Rightarrow> fault + (nat \<times> state)" where
  "get_arena st =
     (if \<not> max_arenas st > 0 then Inl AssertionFailed
      else
        let index = get_arena_index st;
            st1 = st\<lparr>last_used := last_used st + 1\<rparr>
        in if index < 0 \<or> index \<ge> int (length (arenas st)) then Inl OutOfBounds
           else Inr (nat index, st1))"

function find_arena_loop :: "state \<Rightarrow> addr \<Rightarrow> nat \<Rightarrow> nat option" where
  "find_arena_loop st address i =
     (if int i < max_arenas st then
        (if address \<ge> heap_start (arenas st ! i) \<and> address \<le> heap_end (arenas st ! i)
         then Some i
         else find_arena_loop st address (Suc i))
      else None)"
  by pat_completeness auto
termination
  by (relation "measure (\<lambda>(st, address, i). nat (max_arenas st) - i)") auto

declare find_arena_loop.simps [simp del]

definition find_arena :: "state \<Rightarrow> addr \<Rightarrow> nat option" where
  "find_arena st address = find_arena_loop st address 0"

text \<open>
  \<open>arenas_init\<close>.  \<open>mmap\<close> belongs to the system: \<open>am\<close> is what it returns for the arena
  array and \<open>mm i\<close> what it returns for the heap of arena \<open>i\<close>, \<open>MAP_FAILED\<close> being
  \<open>(void *) -1\<close>.  The array is an anonymous mapping, so every \<open>arena_t\<close> in it starts
  zero-filled.
\<close>

definition MAP_FAILED :: addr where
  "MAP_FAILED = - 1"

definition fresh_arena :: arena where
  "fresh_arena = \<lparr>low = NULL, arena_size = 0, heap_start = NULL, heap_end = NULL,
                   seglists = replicate MAXLISTS NULL\<rparr>"

function arenas_init_loop :: "(nat \<Rightarrow> addr) \<Rightarrow> state \<Rightarrow> nat \<Rightarrow> fault + state" where
  "arenas_init_loop mm st i =
     (if int i < max_arenas st then
        (let a1 = (arenas st ! i)\<lparr>low := mm i, arena_size := ARENA_MAX_SIZE\<rparr> in
         if \<not> low a1 \<noteq> MAP_FAILED then Inl AssertionFailed
         else
           let start = low a1;
               m1 = (memory st)(start := pack 0 True True);
               m2 = m1(start + 8 := pack 0 True True);
               a2 = a1\<lparr>heap_start := start + 8, heap_end := start + 2 * 8\<rparr>
           in case extend_arena_heap m2 a2 CHUNK_SIZE True of
                Inl f \<Rightarrow> Inl f
              | Inr (block, m3, a3) \<Rightarrow>
                  if block = NULL then Inl AssertionFailed
                  else arenas_init_loop mm
                         (st\<lparr>memory := m3, arenas := (arenas st)[i := a3]\<rparr>) (Suc i))
      else Inr st)"
  by pat_completeness auto
termination
  by (relation "measure (\<lambda>(mm, st, i). nat (max_arenas st) - i)") auto

declare arenas_init_loop.simps [simp del]

definition arenas_init :: "addr \<Rightarrow> (nat \<Rightarrow> addr) \<Rightarrow> state \<Rightarrow> int \<Rightarrow> fault + state" where
  "arenas_init am mm st num_arenas =
     (if \<not> num_arenas > 0 then Inl AssertionFailed
      else if \<not> am \<noteq> MAP_FAILED then Inl AssertionFailed
      else arenas_init_loop mm
             (st\<lparr>max_arenas := num_arenas,
                 arenas := replicate (nat num_arenas) fresh_arena\<rparr>) 0)"

section \<open>The arena and arena+cache variants of the public interface\<close>

text \<open>
  The first use of an arena whose \<open>heap_start\<close> is still \<open>NULL\<close>; \<open>mm\<close> is what \<open>mmap\<close>
  returns.  The result is \<open>None\<close> where the caller returns \<open>NULL\<close> at once.
\<close>

definition arena_first_use :: "addr \<Rightarrow> mem \<Rightarrow> arena \<Rightarrow> fault + (mem \<times> arena) option" where
  "arena_first_use mm m a =
     (if \<not> low a = NULL then Inl AssertionFailed
      else
        let a1 = a\<lparr>low := mm, arena_size := ARENA_MAX_SIZE\<rparr> in
        if low a1 = MAP_FAILED then Inr None
        else
          let start = low a1;
              m1 = m(start := pack 0 True True);
              m2 = m1(start + wsize := pack 0 True True);
              a2 = a1\<lparr>heap_start := start + wsize, heap_end := start + 2 * wsize\<rparr>
          in case extend_arena_heap m2 a2 CHUNK_SIZE True of
               Inl f \<Rightarrow> Inl f
             | Inr (block, m3, a3) \<Rightarrow>
                 if block = NULL then Inl AssertionFailed else Inr (Some (m3, a3)))"

definition arena_malloc :: "addr \<Rightarrow> state \<Rightarrow> size_t \<Rightarrow> fault + (addr \<times> state)" where
  "arena_malloc mm st sz =
     (case get_arena st of
        Inl f \<Rightarrow> Inl f
      | Inr (i, st1) \<Rightarrow>
          (case (if heap_start (arenas st1 ! i) = NULL
                 then arena_first_use mm (memory st1) (arenas st1 ! i)
                 else Inr (Some (memory st1, arenas st1 ! i))) of
             Inl f \<Rightarrow> Inl f
           | Inr None \<Rightarrow>
               Inr (NULL, st1\<lparr>arenas := (arenas st1)
                      [i := (arenas st1 ! i)\<lparr>low := NULL, arena_size := ARENA_MAX_SIZE\<rparr>]\<rparr>)
           | Inr (Some (m1, a1)) \<Rightarrow>
               (case arena_internal_malloc m1 a1 sz of
                  Inl f \<Rightarrow> Inl f
                | Inr (output, m2, a2) \<Rightarrow>
                    Inr (output, st1\<lparr>memory := m2, arenas := (arenas st1)[i := a2]\<rparr>))))"

text \<open>
  \<open>arena_cached_malloc\<close>: the cache is asked first, with the caller's \<open>size\<close>; on a miss
  the function goes on exactly as \<open>arena_malloc\<close> does.
\<close>

definition arena_cached_malloc :: "addr \<Rightarrow> state \<Rightarrow> size_t \<Rightarrow> fault + (addr \<times> state)" where
  "arena_cached_malloc mm st sz =
     (let (block, c1) = cache_query (memory st) (local_cache st) sz in
      if block \<noteq> NULL then Inr (header_to_payload block, st\<lparr>local_cache := c1\<rparr>)
      else arena_malloc mm (st\<lparr>local_cache := c1\<rparr>) sz)"

text \<open>
  \<open>truly_free\<close>.  When \<open>find_arena\<close> finds no arena the function goes on with a \<open>NULL\<close>
  arena, which \<open>add_to_free_list\<close> dereferences.
\<close>

definition truly_free :: "state \<Rightarrow> addr \<Rightarrow> fault + state" where
  "truly_free st block =
     (case find_arena st block of
        None \<Rightarrow> Inl NullDeref
      | Some i \<Rightarrow>
          (let a = arenas st ! i;
               m = memory st;
               sz = get_size m block;
               m1 = write_block m block sz False (get_prev_alloc m block);
               next = find_next m1 block;
               m2 = write_block m1 next (get_size m1 next) (get_alloc m1 next) False
           in (case coalesce_block m2 a block of
                 Inl f \<Rightarrow> Inl f
               | Inr (block1, m3, a3) \<Rightarrow>
                   (let (m4, a4) = add_to_free_list m3 a3 block1
                    in Inr (st\<lparr>memory := m4, arenas := (arenas st)[i := a4]\<rparr>)))))"

text \<open>
  The guard \<open>(double)(rand() / RAND_MAX) < CACHE_EVICT_PROBABILITY\<close>, for \<open>r\<close> the value of
  \<open>rand()\<close>.  \<open>RAND_MAX\<close> is the C library's (at least 32767), a parameter here.  The
  quotient is one of \<open>int\<close>s; its conversion to \<open>double\<close> is exact.
  \<open>CACHE_EVICT_PROBABILITY\<close> is the \<open>float\<close> constant \<open>0.1f\<close>, that is
  \<open>13421773 / 2 ^ 27\<close>, which the comparison converts to \<open>double\<close> without change.
\<close>

definition CACHE_EVICT_PROBABILITY :: real where
  "CACHE_EVICT_PROBABILITY = 13421773 / 2 ^ 27"

definition evict_guard :: "int \<Rightarrow> int \<Rightarrow> bool" where
  "evict_guard rand_max r \<longleftrightarrow> real_of_int (c_div r rand_max) < CACHE_EVICT_PROBABILITY"

text \<open>
  \<open>arena_cached_free\<close>; \<open>rand()\<close> is called when the first \<open>cache_add\<close> fails, and \<open>r\<close> is
  what it returns then.
\<close>

definition arena_cached_free :: "int \<Rightarrow> int \<Rightarrow> state \<Rightarrow> addr \<Rightarrow> fault + state" where
  "arena_cached_free rand_max r st ptr =
     (let block = payload_to_header ptr;
          (added, c1) = cache_add (memory st) (local_cache st) block
      in if added then Inr (st\<lparr>local_cache := c1\<rparr>)
         else if evict_guard rand_max r then
           (case cache_evict (memory st) c1 of
              Inl f \<Rightarrow> Inl f
            | Inr (evict, c2) \<Rightarrow>
                (case truly_free (st\<lparr>local_cache := c2\<rparr>) evict of
                   Inl f \<Rightarrow> Inl f
                 | Inr st2 \<Rightarrow>
                     (let (added2, c3) = cache_add (memory st2) (local_cache st2) block
                      in if added2 then Inr (st2\<lparr>local_cache := c3\<rparr>)
                         else truly_free (st2\<lparr>local_cache := c3\<rparr>) block)))
         else truly_free (st\<lparr>local_cache := c1\<rparr>) block)"

text \<open>\<open>arena_cached_malloc_init\<close> (and \<open>arena_malloc_init\<close>, which is the same) and \<open>init_tcache\<close>.\<close>

definition arena_cached_malloc_init :: "addr \<Rightarrow> (nat \<Rightarrow> addr) \<Rightarrow> state \<Rightarrow> fault + state" where
  "arena_cached_malloc_init am mm st = arenas_init am mm st 10"

definition init_tcache :: "state \<Rightarrow> state" where
  "init_tcache st = st\<lparr>local_cache := cache_init (local_cache st)\<rparr>"

subsection \<open>Auxiliary notions for the cache proofs\<close>

text \<open>
  The index of the first slot, from slot 0, that holds a block of size at least \<open>sz\<close>
  (the number of slots when there is none); the cache after \<open>block\<close> has been stored in
  slot \<open>k\<close>; the cache after the block of slot \<open>k\<close> has been taken out.
\<close>

definition first_fit_index :: "mem \<Rightarrow> addr list \<Rightarrow> size_t \<Rightarrow> nat" where
  "first_fit_index m es sz = length (takeWhile (\<lambda>b. b = NULL \<or> get_size m b < sz) es)"

definition cache_added :: "cache \<Rightarrow> addr \<Rightarrow> size_t \<Rightarrow> nat \<Rightarrow> cache" where
  "cache_added c block bsize k =
     c\<lparr>num_entries := num_entries c + 1,
       total_size := total_size c + bsize,
       elems := (elems c)[k := block],
       front := (if k < front c then k else front c)\<rparr>"

definition cache_taken :: "mem \<Rightarrow> cache \<Rightarrow> nat \<Rightarrow> cache" where
  "cache_taken m c k =
     c\<lparr>elems := (elems c)[k := NULL],
       total_size := total_size c - get_size m (elems c ! k),
       num_entries := num_entries c - 1,
       front := first_occupied ((elems c)[k := NULL])\<rparr>"

section \<open>Concrete states\<close>

text \<open>
  A memory with two allocated blocks, of 64 and of 32 bytes, and the cache of a thread
  that has called \<open>init_tcache\<close> and then freed the first of them.
\<close>

definition two_blocks :: mem where
  "two_blocks = (\<lambda>_. 0)(0x1008 := pack 64 True True, 0x2008 := pack 32 True True)"

definition empty_cache :: cache where
  "empty_cache = cache_init \<lparr>elems = [], num_entries = 0, total_size = 0, front = 0\<rparr>"

definition one_cached :: cache where
  "one_cached = snd (cache_add two_blocks empty_cache 0x1008)"

text \<open>
  The process before any initialisation (the globals \<open>arenas\<close>, \<open>max_arenas\<close>, \<open>last_used\<close>
  and the thread's \<open>local_cache\<close> as C initialises them), and after the start-up the test
  driver performs: \<open>arena_cached_malloc_init\<close>, then \<open>init_tcache\<close> in the calling
  thread.  The system places the ten heaps 256 MiB apart, from \<open>0x10000000\<close> on.
\<close>

definition process_start :: state where
  "process_start =
     \<lparr>memory = (\<lambda>_. 0), arenas = [], max_arenas = 0, last_used = 0,
      local_cache = \<lparr>elems = replicate CACHE_MAX_ENTRIES NULL, num_entries = 0,
                      total_size = 0, front = 0\<rparr>\<rparr>"

definition mmap_at :: "nat \<Rightarrow> addr" where
  "mmap_at i = 0x10000000 * (of_nat i + 1)"

definition boot :: state where
  "boot = (case arena_cached_malloc_init 0x1000 mmap_at process_start of
             Inr st \<Rightarrow> init_tcache st
           | Inl f \<Rightarrow> process_start)"

text \<open>\<open>n\<close> calls of \<open>get_arena\<close>, one after the other.\<close>

fun get_arena_calls :: "nat \<Rightarrow> state \<Rightarrow> fault + state" where
  "get_arena_calls 0 st = Inr st"
| "get_arena_calls (Suc n) st =
     (case get_arena st of Inl f \<Rightarrow> Inl f | Inr (i, st1) \<Rightarrow> get_arena_calls n st1)"

section \<open>Heap and free-list invariants\<close>

text \<open>
  A free list in memory: \<open>fl_path m q h xs t\<close> says that following \<open>nextBlockInList\<close> from
  \<open>h\<close> visits exactly the blocks \<open>xs\<close>, none of them \<open>NULL\<close>, and ends at \<open>t\<close>, and that
  each block's \<open>prevBlockInList\<close> is its predecessor, \<open>q\<close> for the first.  A whole list is
  \<open>fl_path m NULL head xs NULL\<close>.
\<close>

fun fl_path :: "mem \<Rightarrow> addr \<Rightarrow> addr \<Rightarrow> addr list \<Rightarrow> addr \<Rightarrow> bool" where
  "fl_path m q h [] t \<longleftrightarrow> h = t"
| "fl_path m q h (x # xs) t \<longleftrightarrow>
     h = x \<and> x \<noteq> NULL \<and> m (prevBlockInList x) = q \<and> fl_path m x (m (nextBlockInList x)) xs t"

text \<open>No \<open>prevBlockInList\<close> field of a block of \<open>xs\<close> is the \<open>nextBlockInList\<close> field of one.\<close>

definition link_sep :: "addr list \<Rightarrow> bool" where
  "link_sep xs \<longleftrightarrow> (\<forall>x\<in>set xs. \<forall>y\<in>set xs. prevBlockInList x \<noteq> nextBlockInList y)"

text \<open>
  Invariant I1 for one block, with its extent inside the address space; two blocks whose
  extents do not overlap; an address that does not lie strictly inside the extent of the
  block \<open>y\<close>.
\<close>

definition valid_block :: "mem \<Rightarrow> addr \<Rightarrow> bool" where
  "valid_block m x \<longleftrightarrow> 32 \<le> unat (get_size m x) \<and> unat x + unat (get_size m x) < 2 ^ 64"

definition disjoint_blocks :: "mem \<Rightarrow> addr \<Rightarrow> addr \<Rightarrow> bool" where
  "disjoint_blocks m x y \<longleftrightarrow>
     unat x + unat (get_size m x) \<le> unat y \<or> unat y + unat (get_size m y) \<le> unat x"

definition outside :: "mem \<Rightarrow> addr \<Rightarrow> addr \<Rightarrow> bool" where
  "outside m y z \<longleftrightarrow> unat z \<le> unat y \<or> unat y + unat (get_size m y) \<le> unat z"

text \<open>
  The free lists of an arena, with the blocks of list \<open>c\<close> given as \<open>ls ! c\<close>: every list is
  a well-formed doubly-linked list without repetition, every block is in the list of its
  size class (I5), has a size of at least 32 bytes (I1), and no two listed blocks overlap.
\<close>

definition listed :: "addr list list \<Rightarrow> addr set" where
  "listed ls = set (concat ls)"

definition lists_ok :: "mem \<Rightarrow> arena \<Rightarrow> addr list list \<Rightarrow> bool" where
  "lists_ok m a ls \<longleftrightarrow>
     length ls = MAXLISTS \<and> length (seglists a) = MAXLISTS \<and>
     (\<forall>c\<in>set [0..<MAXLISTS].
        fl_path m NULL (seglists a ! c) (ls ! c) NULL \<and> distinct (ls ! c) \<and>
        (\<forall>x\<in>set (ls ! c). find_list_for_block m x = c)) \<and>
     (\<forall>x\<in>listed ls. valid_block m x \<and> (\<forall>y\<in>listed ls. x = y \<or> disjoint_blocks m x y))"

definition free_chains :: "mem \<Rightarrow> arena \<Rightarrow> addr list list \<Rightarrow> bool" where
  "free_chains m a ls \<longleftrightarrow>
     (\<forall>c\<in>set [0..<MAXLISTS]. fl_path m NULL (seglists a ! c) (ls ! c) NULL)"

text \<open>
  The state in which \<open>_free\<close>, \<open>truly_free\<close> and \<open>extend_arena_heap\<close> call
  \<open>coalesce_block\<close>: the free lists are in order; \<open>block\<close> has just been written free and
  is in no list yet; a following block whose header says free is a listed block, itself
  followed by an allocated block (I4); when the \<open>prev_alloc\<close> bit of \<open>block\<close> is clear,
  the footer before \<open>block\<close> leads to a listed block that ends where \<open>block\<close> starts
  (I2, I3).
\<close>

definition coalesce_pre :: "mem \<Rightarrow> arena \<Rightarrow> addr list list \<Rightarrow> addr \<Rightarrow> bool" where
  "coalesce_pre m a ls b \<longleftrightarrow>
     lists_ok m a ls \<and>
     b \<noteq> NULL \<and> \<not> get_alloc m b \<and> valid_block m b \<and> b \<notin> listed ls \<and>
     (\<forall>x\<in>listed ls. disjoint_blocks m b x) \<and>
     (get_alloc m (find_next m b) \<or>
        find_next m b \<in> listed ls \<and> get_alloc m (find_next m (find_next m b))) \<and>
     (get_prev_alloc m b \<or>
        find_prev m b \<in> listed ls \<and> find_next m (find_prev m b) = b)"

text \<open>The free neighbours of \<open>b\<close>, which \<open>coalesce_block\<close> merges with it.\<close>

definition merged_neighbours :: "mem \<Rightarrow> addr \<Rightarrow> addr list" where
  "merged_neighbours m b =
     (if get_alloc m (find_next m b) then [] else [find_next m b]) @
     (if get_prev_alloc m b then [] else [find_prev m b])"

text \<open>
  A heap in that state: four 32-byte blocks at \<open>0x10000008\<close>, \<open>0x10000028\<close>,
  \<open>0x10000048\<close> and \<open>0x10000068\<close>, followed by a free block of 20352 bytes.  The first and
  the third are free and in list 0, the large one is in list 9, the fourth is allocated,
  and the second is being freed.
\<close>

definition merge_heap :: mem where
  "merge_heap = (\<lambda>_. 0)
     (0x10000000 := 3,
      0x10000008 := 34, 0x10000010 := 0x10000048, 0x10000018 := NULL, 0x10000020 := 34,
      0x10000028 := 32, 0x10000040 := 32,
      0x10000048 := 32, 0x10000050 := NULL, 0x10000058 := 0x10000008, 0x10000060 := 32,
      0x10000068 := 33,
      0x10000088 := 20354, 0x10005000 := 20354,
      0x10005008 := 1)"

definition merge_arena :: arena where
  "merge_arena = \<lparr>low = 0x10000000, arena_size = 0x8000000, heap_start = 0x10000008,
                   heap_end = 0x10005010,
                   seglists = (replicate MAXLISTS NULL)[0 := 0x10000048, 9 := 0x10000088]\<rparr>"

definition merge_lists :: "addr list list" where
  "merge_lists = (replicate MAXLISTS [])[0 := [0x10000048, 0x10000008], 9 := [0x10000088]]"

definition merge_addrs :: "addr list" where
  "merge_addrs =
     [0x10000000, 0x10000008, 0x10000010, 0x10000018, 0x10000020, 0x10000028, 0x10000030,
      0x10000038, 0x10000040, 0x10000048, 0x10000050, 0x10000058, 0x10000060, 0x10000068,
      0x10000088, 0x10000090, 0x10000098, 0x10005000, 0x10005008]"

section \<open>Arithmetic helpers\<close>

lemma unat_plus64:
  "unat (a :: 64 word) + unat b < 2 ^ 64 \<Longrightarrow> unat (a + b) = unat a + unat b"
  using unat_add_lem [of a b] by simp

lemma c_div_small: "0 \<le> r \<Longrightarrow> r < b \<Longrightarrow> c_div r b = 0"
  by (simp add: c_div_def)

lemma c_div_self: "0 < b \<Longrightarrow> c_div b b = 1"
  by (simp add: c_div_def)

section \<open>The eviction guard\<close>

text \<open>
  Claim C6, which says that the guard \<open>(double)(rand() / RAND_MAX) < CACHE_EVICT_PROBABILITY\<close>
  of \<open>arena_cached_free\<close> is false for every value of \<open>rand()\<close>.  The code does the
  opposite: the integer quotient is 0 for every \<open>r\<close> below \<open>RAND_MAX\<close>, and 0 is less than
  0.1, so the guard is true for every \<open>r\<close> with \<open>0 \<le> r < RAND_MAX\<close> and false only for
  \<open>r = RAND_MAX\<close>, where the quotient is 1.
\<close>

theorem evict_guard_iff:
  "0 < rand_max \<Longrightarrow> 0 \<le> r \<Longrightarrow> r \<le> rand_max \<Longrightarrow>
     evict_guard rand_max r \<longleftrightarrow> r < rand_max"
proof -
  assume h: "0 < rand_max" "0 \<le> r" "r \<le> rand_max"
  show ?thesis
  proof (cases "r < rand_max")
    case True
    with h have "c_div r rand_max = 0"
      by (simp add: c_div_small)
    with True show ?thesis
      by (simp add: evict_guard_def CACHE_EVICT_PROBABILITY_def)
  next
    case False
    with h have "r = rand_max"
      by simp
    with h have "c_div r rand_max = 1"
      by (simp add: c_div_self)
    with False show ?thesis
      by (simp add: evict_guard_def CACHE_EVICT_PROBABILITY_def)
  qed
qed

theorem evict_guard_iff_witness:
  "(0::int) < 2147483647 \<and> (0::int) \<le> 41 \<and> (41::int) \<le> 2147483647 \<and>
   (evict_guard 2147483647 41 \<longleftrightarrow> (41::int) < 2147483647)"
  using evict_guard_iff [of 2147483647 41] by simp

text \<open>With glibc's \<open>RAND_MAX\<close> and \<open>rand()\<close> returning 0 the guard is true.\<close>

theorem evict_guard_counterexample: "evict_guard 2147483647 0"
  by (simp add: evict_guard_def CACHE_EVICT_PROBABILITY_def c_div_def)

section \<open>The thread cache\<close>

lemma first_occupied_eq:
  assumes "k \<le> length es" and "\<And>j. j < k \<Longrightarrow> es ! j = NULL"
    and "k < length es \<Longrightarrow> es ! k \<noteq> NULL"
  shows "first_occupied es = k"
proof -
  have "takeWhile (\<lambda>b. b = NULL) es = take k es"
    by (rule takeWhile_eq_take_P_nth) (use assms in auto)
  with assms(1) show ?thesis
    by (simp add: first_occupied_def)
qed

lemma first_occupied_le: "first_occupied es \<le> length es"
  by (simp add: first_occupied_def length_takeWhile_le)

lemma first_occupied_before: "j < first_occupied es \<Longrightarrow> es ! j = NULL"
  unfolding first_occupied_def using takeWhile_nth [of j "\<lambda>b. b = NULL" es]
    nth_mem [of j "takeWhile (\<lambda>b. b = NULL) es"]
  by (metis (mono_tags, lifting) set_takeWhileD)

lemma first_occupied_at: "first_occupied es < length es \<Longrightarrow> es ! first_occupied es \<noteq> NULL"
  unfolding first_occupied_def by (rule nth_length_takeWhile)

lemma first_fit_index_eq:
  assumes "k \<le> length es" and "\<And>j. j < k \<Longrightarrow> es ! j = NULL \<or> get_size m (es ! j) < sz"
    and "k < length es \<Longrightarrow> es ! k \<noteq> NULL \<and> \<not> get_size m (es ! k) < sz"
  shows "first_fit_index m es sz = k"
proof -
  have "takeWhile (\<lambda>b. b = NULL \<or> get_size m b < sz) es = take k es"
    by (rule takeWhile_eq_take_P_nth) (use assms in auto)
  with assms(1) show ?thesis
    by (simp add: first_fit_index_def)
qed

lemma advance_front_first_occupied:
  "length es = CACHE_MAX_ENTRIES \<Longrightarrow> f \<le> CACHE_MAX_ENTRIES \<Longrightarrow> (\<forall>j<f. es ! j = NULL) \<Longrightarrow>
     advance_front es f = first_occupied es"
proof (induction es f rule: advance_front.induct)
  case (1 es f)
  show ?case
  proof (cases "f < CACHE_MAX_ENTRIES \<and> es ! f = NULL")
    case True
    then have "\<forall>j<Suc f. es ! j = NULL"
      using "1.prems"(3) by (auto simp: less_Suc_eq)
    with True "1.IH" "1.prems"(1) have "advance_front es (Suc f) = first_occupied es"
      by simp
    with True show ?thesis
      by (subst advance_front.simps) simp
  next
    case False
    have "first_occupied es = f"
      by (rule first_occupied_eq) (use False "1.prems" in auto)
    with False show ?thesis
      by (subst advance_front.simps) auto
  qed
qed

lemma held_update:
  "i < length es \<Longrightarrow>
     held (es[i := v]) = held (take i es) @ (if v \<noteq> NULL then [v] else []) @ held (drop (Suc i) es)"
  by (simp add: held_def upd_conv_take_nth_drop)

lemma held_split:
  "i < length es \<Longrightarrow>
     held es = held (take i es) @ (if es ! i \<noteq> NULL then [es ! i] else []) @ held (drop (Suc i) es)"
  using held_update [of i es "es ! i"] by simp

lemma length_held_le: "length (held es) \<le> length es"
  by (simp add: held_def)

lemma held_full_or_empty_slot:
  assumes "length (held es) \<noteq> length es"
  shows "\<exists>j<length es. es ! j = NULL"
proof -
  have "\<not> (\<forall>x\<in>set es. x \<noteq> NULL)"
  proof
    assume "\<forall>x\<in>set es. x \<noteq> NULL"
    then have "held es = es"
      by (simp add: held_def)
    with assms show False
      by simp
  qed
  then show ?thesis
    by (auto simp: in_set_conv_nth)
qed

lemma held_nonempty_slot:
  assumes "held es \<noteq> []"
  shows "first_occupied es < length es"
proof -
  from assms obtain x where "x \<in> set es" "x \<noteq> NULL"
    by (auto simp: held_def filter_empty_conv)
  then obtain j where j: "j < length es" "es ! j \<noteq> NULL"
    by (auto simp: in_set_conv_nth)
  have "\<not> j < first_occupied es"
    using first_occupied_before j(2) by blast
  with j(1) show ?thesis
    by simp
qed

lemma cache_add_loop_first_empty:
  "\<exists>j\<ge>i. j < CACHE_MAX_ENTRIES \<and> elems c ! j = NULL \<Longrightarrow>
     \<exists>k\<ge>i. k < CACHE_MAX_ENTRIES \<and> elems c ! k = NULL \<and> (\<forall>j. i \<le> j \<and> j < k \<longrightarrow> elems c ! j \<noteq> NULL) \<and>
       cache_add_loop c block bsize i = cache_added c block bsize k"
proof (induction c block bsize i rule: cache_add_loop.induct)
  case (1 c block bsize i)
  from "1.prems" obtain j0 where j0: "j0 \<ge> i" "j0 < CACHE_MAX_ENTRIES" "elems c ! j0 = NULL"
    by blast
  then have i: "i < CACHE_MAX_ENTRIES"
    by simp
  show ?case
  proof (cases "elems c ! i = NULL")
    case True
    have eq: "cache_add_loop c block bsize i = cache_added c block bsize i"
      using True i by (subst cache_add_loop.simps) (simp add: cache_added_def)
    show ?thesis
    proof (intro exI [of _ i] conjI)
      show "i \<le> i" by simp
      show "i < CACHE_MAX_ENTRIES" by (rule i)
      show "elems c ! i = NULL" by (rule True)
      show "\<forall>j. i \<le> j \<and> j < i \<longrightarrow> elems c ! j \<noteq> NULL" by auto
      show "cache_add_loop c block bsize i = cache_added c block bsize i" by (rule eq)
    qed
  next
    case False
    with j0 have "j0 \<noteq> i"
      by auto
    with j0 have "\<exists>j\<ge>Suc i. j < CACHE_MAX_ENTRIES \<and> elems c ! j = NULL"
      by (intro exI [of _ j0]) simp
    from "1.IH" [OF i False this] obtain k where k: "k \<ge> Suc i" "k < CACHE_MAX_ENTRIES"
      "elems c ! k = NULL" "\<forall>j. Suc i \<le> j \<and> j < k \<longrightarrow> elems c ! j \<noteq> NULL"
      "cache_add_loop c block bsize (Suc i) = cache_added c block bsize k"
      by blast
    have eq: "cache_add_loop c block bsize i = cache_add_loop c block bsize (Suc i)"
      using i False by (subst cache_add_loop.simps) simp
    show ?thesis
    proof (intro exI [of _ k] conjI)
      show "i \<le> k" using k(1) by simp
      show "k < CACHE_MAX_ENTRIES" by (rule k(2))
      show "elems c ! k = NULL" by (rule k(3))
      show "\<forall>j. i \<le> j \<and> j < k \<longrightarrow> elems c ! j \<noteq> NULL"
      proof (intro allI impI)
        fix j assume j: "i \<le> j \<and> j < k"
        show "elems c ! j \<noteq> NULL"
        proof (cases "j = i")
          case True
          with False show ?thesis by simp
        next
          case False
          with j k(4) show ?thesis by simp
        qed
      qed
      show "cache_add_loop c block bsize i = cache_added c block bsize k"
        using eq k(5) by simp
    qed
  qed
qed


text \<open>Filling an empty slot.\<close>

lemma held_fill:
  assumes "k < length es" "es ! k = NULL" "b \<noteq> NULL"
  shows "length (held (es[k := b])) = Suc (length (held es))"
    and "sum_list (map (get_size m) (held (es[k := b]))) =
           sum_list (map (get_size m) (held es)) + get_size m b"
  using assms held_update [of k es b] held_split [of k es] by simp_all

text \<open>Clearing an occupied slot.\<close>

lemma held_clear:
  assumes "k < length es" "es ! k \<noteq> NULL"
  shows "Suc (length (held (es[k := NULL]))) = length (held es)"
    and "sum_list (map (get_size m) (held (es[k := NULL]))) =
           sum_list (map (get_size m) (held es)) - get_size m (es ! k)"
  using assms held_update [of k es NULL] held_split [of k es] by simp_all

lemma first_occupied_fill:
  assumes len: "k < length es" and empty: "es ! k = NULL" and b: "b \<noteq> NULL"
    and first: "\<forall>j<k. es ! j \<noteq> NULL"
  shows "first_occupied (es[k := b]) = (if k < first_occupied es then k else first_occupied es)"
proof (cases "k = 0")
  case True
  have "first_occupied (es[k := b]) = 0"
    by (rule first_occupied_eq) (use True len b in auto)
  then show ?thesis
    using True by auto
next
  case False
  then have 0: "es ! 0 \<noteq> NULL"
    using first by simp
  have "first_occupied es = 0"
    by (rule first_occupied_eq) (use 0 in auto)
  moreover have "first_occupied (es[k := b]) = 0"
    by (rule first_occupied_eq) (use 0 False in auto)
  ultimately show ?thesis
    by simp
qed

lemma first_occupied_clear_other:
  assumes "k < length es" "first_occupied es < k"
  shows "first_occupied (es[k := NULL]) = first_occupied es"
proof (rule first_occupied_eq)
  show "first_occupied es \<le> length (es[k := NULL])"
    using assms by simp
  show "es[k := NULL] ! j = NULL" if "j < first_occupied es" for j
    using that assms first_occupied_before [of j es] by simp
  show "es[k := NULL] ! first_occupied es \<noteq> NULL"
    using assms first_occupied_at [of es] by simp
qed

lemma cache_inv_add:
  assumes inv: "cache_inv m c" and b: "block \<noteq> NULL"
  shows "cache_inv m (snd (cache_add m c block))"
proof (cases "fst (cache_add m c block)")
  case False
  then have "snd (cache_add m c block) = c"
    by (auto simp: cache_add_def Let_def split: if_splits)
  with inv show ?thesis
    by simp
next
  case True
  let ?es = "elems c" and ?bs = "get_size m block"
  have len: "length ?es = CACHE_MAX_ENTRIES"
    and num: "num_entries c = of_nat (length (held ?es))"
    and tot: "total_size c = sum_list (map (get_size m) (held ?es))"
    and fr: "front c = first_occupied ?es"
    using inv by (simp_all add: cache_inv_def)
  from True have nfull: "num_entries c \<noteq> of_nat CACHE_MAX_ENTRIES"
    and res: "snd (cache_add m c block) = cache_add_loop c block ?bs 0"
    by (auto simp: cache_add_def Let_def split: if_splits)
  have "length (held ?es) \<noteq> CACHE_MAX_ENTRIES"
    using nfull num by auto
  then obtain j where "j < CACHE_MAX_ENTRIES" "?es ! j = NULL"
    using held_full_or_empty_slot [of ?es] len by auto
  then have "\<exists>j\<ge>0. j < CACHE_MAX_ENTRIES \<and> ?es ! j = NULL"
    by auto
  from cache_add_loop_first_empty [OF this, of block ?bs]
  obtain k where k: "k < CACHE_MAX_ENTRIES" "?es ! k = NULL" "\<forall>j. 0 \<le> j \<and> j < k \<longrightarrow> ?es ! j \<noteq> NULL"
    "cache_add_loop c block ?bs 0 = cache_added c block ?bs k"
    by blast
  have klen: "k < length ?es"
    using k(1) len by simp
  have "cache_inv m (cache_added c block ?bs k)"
    unfolding cache_inv_def
  proof (intro conjI)
    show "length (elems (cache_added c block ?bs k)) = CACHE_MAX_ENTRIES"
      using len by (simp add: cache_added_def)
    show "num_entries (cache_added c block ?bs k) = of_nat (length (held (elems (cache_added c block ?bs k))))"
      using held_fill(1) [OF klen k(2) b] num by (simp add: cache_added_def)
    show "total_size (cache_added c block ?bs k) =
            sum_list (map (get_size m) (held (elems (cache_added c block ?bs k))))"
      using held_fill(2) [OF klen k(2) b, of m] tot by (simp add: cache_added_def)
    show "front (cache_added c block ?bs k) = first_occupied (elems (cache_added c block ?bs k))"
      using first_occupied_fill [OF klen k(2) b] k(3) fr by (simp add: cache_added_def)
  qed
  with res k(4) show ?thesis
    by simp
qed


lemma cache_inv_taken:
  assumes inv: "cache_inv m c" and k: "k < CACHE_MAX_ENTRIES" "elems c ! k \<noteq> NULL"
  shows "cache_inv m (cache_taken m c k)"
proof -
  let ?es = "elems c"
  have len: "length ?es = CACHE_MAX_ENTRIES"
    and num: "num_entries c = of_nat (length (held ?es))"
    and tot: "total_size c = sum_list (map (get_size m) (held ?es))"
    using inv by (simp_all add: cache_inv_def)
  have klen: "k < length ?es"
    using k(1) len by simp
  from held_clear(1) [OF klen k(2)]
  have "num_entries c = of_nat (length (held (?es[k := NULL]))) + 1"
    using num by (metis of_nat_Suc add.commute)
  then have "num_entries c - 1 = of_nat (length (held (?es[k := NULL])))"
    by simp
  with held_clear(2) [OF klen k(2), of m] len tot show ?thesis
    by (simp add: cache_inv_def cache_taken_def)
qed

text \<open>What the scanning loop of \<open>cache_query\<close> computes.\<close>

lemma cache_query_loop_first_fit:
  "cache_inv m c \<Longrightarrow> i \<le> CACHE_MAX_ENTRIES \<Longrightarrow> front c \<le> i \<Longrightarrow>
   (\<forall>j<i. elems c ! j = NULL \<or> get_size m (elems c ! j) < sz) \<Longrightarrow>
     cache_query_loop m c sz i =
       (let k = first_fit_index m (elems c) sz
        in if k < CACHE_MAX_ENTRIES then (elems c ! k, cache_taken m c k) else (NULL, c))"
proof (induction m c sz i rule: cache_query_loop.induct)
  case (1 m c sz i)
  let ?es = "elems c"
  have len: "length ?es = CACHE_MAX_ENTRIES" and fr: "front c = first_occupied ?es"
    using "1.prems"(1) by (simp_all add: cache_inv_def)
  show ?case
  proof (cases "i < CACHE_MAX_ENTRIES")
    case False
    with "1.prems"(2) have i: "i = CACHE_MAX_ENTRIES"
      by simp
    have "first_fit_index m ?es sz = CACHE_MAX_ENTRIES"
      by (rule first_fit_index_eq) (use i len "1.prems"(4) in auto)
    moreover have "cache_query_loop m c sz i = (NULL, c)"
      using False by (subst cache_query_loop.simps) simp
    ultimately show ?thesis
      by simp
  next
    case i: True
    show ?thesis
    proof (cases "?es ! i = NULL \<or> get_size m (?es ! i) < sz")
      case True
      then have step: "cache_query_loop m c sz i = cache_query_loop m c sz (Suc i)"
        using i by (subst cache_query_loop.simps) (auto simp: Let_def not_le)
      have all: "\<forall>j<Suc i. ?es ! j = NULL \<or> get_size m (?es ! j) < sz"
        using "1.prems"(4) True by (auto simp: less_Suc_eq)
      have le: "Suc i \<le> CACHE_MAX_ENTRIES" "front c \<le> Suc i"
        using i "1.prems"(3) by simp_all
      show ?thesis
      proof (cases "?es ! i = NULL")
        case True
        from "1.IH"(1) [OF i True "1.prems"(1) le all] step show ?thesis
          by simp
      next
        case False
        with True have small: "\<not> sz \<le> get_size m (?es ! i)"
          by auto
        from "1.IH"(2) [OF i False refl refl small "1.prems"(1) le all] step show ?thesis
          by simp
      qed
    next
      case False
      then have hit: "?es ! i \<noteq> NULL" "sz \<le> get_size m (?es ! i)"
        by auto
      have k: "first_fit_index m ?es sz = i"
        by (rule first_fit_index_eq) (use i len "1.prems"(4) False in auto)
      have "cache_query_loop m c sz i = (?es ! i, cache_taken m c i)"
      proof (cases "i = front c")
        case True
        have "\<forall>j<front c. ?es[i := NULL] ! j = NULL"
          using fr first_occupied_before [of _ ?es] True by simp
        then have "advance_front (?es[i := NULL]) (front c) = first_occupied (?es[i := NULL])"
          using len "1.prems"(3) i by (intro advance_front_first_occupied) simp_all
        with True i hit show ?thesis
          by (subst cache_query_loop.simps) (simp add: Let_def cache_taken_def)
      next
        case False
        with "1.prems"(3) have "first_occupied ?es < i"
          using fr by simp
        then have "first_occupied (?es[i := NULL]) = first_occupied ?es"
          using i len by (intro first_occupied_clear_other) simp_all
        with fr have "first_occupied (?es[i := NULL]) = front c"
          by simp
        with False i hit show ?thesis
          by (subst cache_query_loop.simps) (cases c, simp add: Let_def cache_taken_def)
      qed
      with k i show ?thesis
        by simp
    qed
  qed
qed


lemma first_fit_index_le: "first_fit_index m es sz \<le> length es"
  by (simp add: first_fit_index_def length_takeWhile_le)

lemma first_fit_index_before:
  "j < first_fit_index m es sz \<Longrightarrow> es ! j = NULL \<or> get_size m (es ! j) < sz"
  unfolding first_fit_index_def
  using takeWhile_nth [of j "\<lambda>b. b = NULL \<or> get_size m b < sz" es]
    nth_mem [of j "takeWhile (\<lambda>b. b = NULL \<or> get_size m b < sz) es"]
  by (metis (mono_tags, lifting) set_takeWhileD)

lemma first_fit_index_at:
  "first_fit_index m es sz < length es \<Longrightarrow>
     es ! first_fit_index m es sz \<noteq> NULL \<and> sz \<le> get_size m (es ! first_fit_index m es sz)"
  unfolding first_fit_index_def
  using nth_length_takeWhile [of "\<lambda>b. b = NULL \<or> get_size m b < sz" es] by auto

lemma cache_query_first_fit:
  assumes "cache_inv m c"
  shows "cache_query m c sz =
           (let k = first_fit_index m (elems c) sz
            in if k < CACHE_MAX_ENTRIES then (elems c ! k, cache_taken m c k) else (NULL, c))"
  unfolding cache_query_def
proof (rule cache_query_loop_first_fit [OF assms])
  have len: "length (elems c) = CACHE_MAX_ENTRIES" and fr: "front c = first_occupied (elems c)"
    using assms by (simp_all add: cache_inv_def)
  show "front c \<le> CACHE_MAX_ENTRIES"
    using first_occupied_le [of "elems c"] len fr by simp
  show "front c \<le> front c"
    by simp
  show "\<forall>j<front c. elems c ! j = NULL \<or> get_size m (elems c ! j) < sz"
    using fr first_occupied_before [of _ "elems c"] by simp
qed

lemma cache_inv_query:
  assumes "cache_inv m c"
  shows "cache_inv m (snd (cache_query m c sz))"
proof (cases "first_fit_index m (elems c) sz < CACHE_MAX_ENTRIES")
  case True
  have len: "length (elems c) = CACHE_MAX_ENTRIES"
    using assms by (simp add: cache_inv_def)
  with True first_fit_index_at [of m "elems c" sz]
  have "elems c ! first_fit_index m (elems c) sz \<noteq> NULL"
    by simp
  from cache_inv_taken [OF assms True this] True show ?thesis
    by (simp add: cache_query_first_fit [OF assms] Let_def)
next
  case False
  with assms show ?thesis
    by (simp add: cache_query_first_fit [OF assms] Let_def)
qed

lemma cache_evict_ok:
  assumes inv: "cache_inv m c" and pos: "num_entries c > 0"
  shows "cache_evict m c = Inr (elems c ! front c, cache_taken m c (front c)) \<and>
         front c < CACHE_MAX_ENTRIES \<and> elems c ! front c \<noteq> NULL"
proof -
  let ?es = "elems c"
  have len: "length ?es = CACHE_MAX_ENTRIES"
    and num: "num_entries c = of_nat (length (held ?es))"
    and fr: "front c = first_occupied ?es"
    using inv by (simp_all add: cache_inv_def)
  from pos num have "held ?es \<noteq> []"
    by auto
  then have lt: "front c < CACHE_MAX_ENTRIES"
    using held_nonempty_slot [of ?es] fr len by simp
  then have occ: "?es ! front c \<noteq> NULL"
    using first_occupied_at [of ?es] fr len by simp
  have "\<forall>j<front c. ?es[front c := NULL] ! j = NULL"
    using fr first_occupied_before [of _ ?es] by simp
  then have "advance_front (?es[front c := NULL]) (front c) = first_occupied (?es[front c := NULL])"
    using len lt by (intro advance_front_first_occupied) simp_all
  with pos lt occ show ?thesis
    by (simp add: cache_evict_def Let_def cache_taken_def)
qed

lemma cache_inv_init: "cache_inv m (cache_init c)"
  by (simp add: cache_inv_def cache_init_def held_def first_occupied_def)

text \<open>
  Claim C10: the state invariant of the thread cache (\<open>num_entries\<close> is the number of
  non-\<open>NULL\<close> slots, \<open>total_size\<close> is the sum of the sizes of the blocks in them, \<open>front\<close>
  is the smallest index of a non-\<open>NULL\<close> slot, or 8 when there is none) holds after
  \<open>cache_init\<close> and is kept by \<open>cache_add\<close> of a block, by \<open>cache_query\<close> and, when
  \<open>num_entries > 0\<close>, by \<open>cache_evict\<close>, which then returns without a fault.
\<close>

theorem cache_invariant:
  "cache_inv m (cache_init c0) \<and>
   (cache_inv m c \<and> block \<noteq> NULL \<longrightarrow> cache_inv m (snd (cache_add m c block))) \<and>
   (cache_inv m c \<longrightarrow> cache_inv m (snd (cache_query m c sz))) \<and>
   (cache_inv m c \<and> num_entries c > 0 \<longrightarrow>
      (\<exists>b c'. cache_evict m c = Inr (b, c') \<and> cache_inv m c'))"
proof (intro conjI impI)
  show "cache_inv m (cache_init c0)"
    by (rule cache_inv_init)
  show "cache_inv m (snd (cache_add m c block))" if "cache_inv m c \<and> block \<noteq> NULL"
    using that by (simp add: cache_inv_add)
  show "cache_inv m (snd (cache_query m c sz))" if "cache_inv m c"
    using that by (rule cache_inv_query)
  show "\<exists>b c'. cache_evict m c = Inr (b, c') \<and> cache_inv m c'"
    if h: "cache_inv m c \<and> num_entries c > 0"
  proof -
    from h cache_evict_ok [of m c]
    have ev: "cache_evict m c = Inr (elems c ! front c, cache_taken m c (front c))"
      and k: "front c < CACHE_MAX_ENTRIES" "elems c ! front c \<noteq> NULL"
      by simp_all
    from h k have "cache_inv m (cache_taken m c (front c))"
      by (simp add: cache_inv_taken)
    with ev show ?thesis
      by blast
  qed
qed

theorem cache_invariant_witness:
  "cache_inv two_blocks one_cached \<and> (0x2008 :: addr) \<noteq> NULL \<and> num_entries one_cached > 0 \<and>
   cache_inv two_blocks (cache_init one_cached) \<and>
   cache_inv two_blocks (snd (cache_add two_blocks one_cached 0x2008)) \<and>
   cache_inv two_blocks (snd (cache_query two_blocks one_cached 32)) \<and>
   (\<exists>b c'. cache_evict two_blocks one_cached = Inr (b, c') \<and> cache_inv two_blocks c')"
proof -
  have h: "cache_inv two_blocks one_cached"
    by code_simp
  have p: "num_entries one_cached > 0"
    by code_simp
  show ?thesis
    using cache_invariant [of two_blocks one_cached one_cached "0x2008" 32] h p by simp
qed

text \<open>
  Claim C9, as amended: after a \<open>cache_add\<close> of \<open>block\<close> that returns true,
  \<open>cache_query\<close> with the size of \<open>block\<close> returns the block of the lowest slot whose
  block is at least that large, and clears that slot only.  That block is \<open>block\<close> itself
  when every block that was in the cache before is smaller than \<open>block\<close>.
\<close>

theorem cache_add_then_query:
  assumes inv: "cache_inv m c" and b: "block \<noteq> NULL" and add: "cache_add m c block = (True, c1)"
  shows "\<exists>k<CACHE_MAX_ENTRIES.
           (\<forall>j<k. elems c1 ! j = NULL \<or> get_size m (elems c1 ! j) < get_size m block) \<and>
           elems c1 ! k \<noteq> NULL \<and> get_size m block \<le> get_size m (elems c1 ! k) \<and>
           fst (cache_query m c1 (get_size m block)) = elems c1 ! k \<and>
           elems (snd (cache_query m c1 (get_size m block))) = (elems c1)[k := NULL] \<and>
           ((\<forall>x\<in>set (elems c). x = NULL \<or> get_size m x < get_size m block) \<longrightarrow>
              fst (cache_query m c1 (get_size m block)) = block)"
proof -
  let ?es = "elems c" and ?bs = "get_size m block"
  have c1: "c1 = snd (cache_add m c block)"
    using add by simp
  have inv1: "cache_inv m c1"
    unfolding c1 using inv b by (rule cache_inv_add)
  have len: "length ?es = CACHE_MAX_ENTRIES"
    and num: "num_entries c = of_nat (length (held ?es))"
    using inv by (simp_all add: cache_inv_def)
  have len1: "length (elems c1) = CACHE_MAX_ENTRIES"
    using inv1 by (simp add: cache_inv_def)
  from add have nfull: "num_entries c \<noteq> of_nat CACHE_MAX_ENTRIES"
    and res: "c1 = cache_add_loop c block ?bs 0"
    by (auto simp: cache_add_def Let_def split: if_splits)
  have "length (held ?es) \<noteq> CACHE_MAX_ENTRIES"
    using nfull num by auto
  then obtain j where "j < CACHE_MAX_ENTRIES" "?es ! j = NULL"
    using held_full_or_empty_slot [of ?es] len by auto
  then have "\<exists>j\<ge>0. j < CACHE_MAX_ENTRIES \<and> ?es ! j = NULL"
    by auto
  from cache_add_loop_first_empty [OF this, of block ?bs]
  obtain i where i: "i < CACHE_MAX_ENTRIES" "?es ! i = NULL"
    "cache_add_loop c block ?bs 0 = cache_added c block ?bs i"
    by blast
  have es1: "elems c1 = ?es[i := block]"
    using res i(3) by (simp add: cache_added_def)
  let ?k = "first_fit_index m (elems c1) ?bs"
  have "\<not> i < ?k"
  proof
    assume "i < ?k"
    from first_fit_index_before [OF this] show False
      using es1 i(1) len b by simp
  qed
  then have kle: "?k \<le> i"
    by simp
  with i(1) have k: "?k < CACHE_MAX_ENTRIES"
    by simp
  have q: "cache_query m c1 ?bs = (elems c1 ! ?k, cache_taken m c1 ?k)"
    using k by (simp add: cache_query_first_fit [OF inv1] Let_def)
  have at: "elems c1 ! ?k \<noteq> NULL" "?bs \<le> get_size m (elems c1 ! ?k)"
    using first_fit_index_at [of m "elems c1" ?bs] k len1 by simp_all
  have same: "fst (cache_query m c1 ?bs) = block"
    if small: "\<forall>x\<in>set ?es. x = NULL \<or> get_size m x < ?bs"
  proof -
    have "?k = i"
    proof (rule ccontr)
      assume "?k \<noteq> i"
      with kle have lt: "?k < i"
        by simp
      then have "elems c1 ! ?k = ?es ! ?k"
        using es1 by simp
      moreover have "?es ! ?k \<in> set ?es"
        using lt i(1) len by simp
      ultimately show False
        using small at by (metis not_le)
    qed
    with q es1 i(1) len show ?thesis
      by simp
  qed
  show ?thesis
  proof (intro exI [of _ ?k] conjI impI)
    show "?k < CACHE_MAX_ENTRIES"
      by (rule k)
    show "\<forall>j<?k. elems c1 ! j = NULL \<or> get_size m (elems c1 ! j) < ?bs"
      using first_fit_index_before by blast
    show "elems c1 ! ?k \<noteq> NULL" "?bs \<le> get_size m (elems c1 ! ?k)"
      by (rule at)+
    show "fst (cache_query m c1 ?bs) = elems c1 ! ?k"
      using q by simp
    show "elems (snd (cache_query m c1 ?bs)) = (elems c1)[?k := NULL]"
      using q by (simp add: cache_taken_def)
    show "fst (cache_query m c1 ?bs) = block"
      if "\<forall>x\<in>set ?es. x = NULL \<or> get_size m x < ?bs"
      using that by (rule same)
  qed
qed

theorem cache_add_then_query_witness:
  "cache_inv two_blocks empty_cache \<and> (0x2008 :: addr) \<noteq> NULL \<and>
   cache_add two_blocks empty_cache 0x2008 = (True, snd (cache_add two_blocks empty_cache 0x2008)) \<and>
   elems empty_cache = replicate CACHE_MAX_ENTRIES NULL \<and>
   fst (cache_query two_blocks (snd (cache_add two_blocks empty_cache 0x2008))
          (get_size two_blocks 0x2008)) = 0x2008"
proof -
  have h1: "cache_inv two_blocks empty_cache"
    by code_simp
  have h2: "(0x2008 :: addr) \<noteq> NULL"
    by simp
  have "fst (cache_add two_blocks empty_cache 0x2008)"
    by code_simp
  then have h3: "cache_add two_blocks empty_cache 0x2008 =
                   (True, snd (cache_add two_blocks empty_cache 0x2008))"
    by (simp add: prod_eq_iff)
  have h4: "\<forall>x\<in>set (elems empty_cache).
              x = NULL \<or> get_size two_blocks x < get_size two_blocks 0x2008"
    by (simp add: empty_cache_def cache_init_def)
  from cache_add_then_query [OF h1 h2 h3] h4
  have "fst (cache_query two_blocks (snd (cache_add two_blocks empty_cache 0x2008))
               (get_size two_blocks 0x2008)) = 0x2008"
    by blast
  moreover have "elems empty_cache = replicate CACHE_MAX_ENTRIES NULL"
    by (simp add: empty_cache_def cache_init_def)
  ultimately show ?thesis
    using h1 h2 h3 by blast
qed

text \<open>
  With the 64-byte block cached in slot 0, adding the 32-byte block succeeds and the
  query for 32 bytes returns the 64-byte block.
\<close>

theorem cache_add_then_query_counterexample:
  "cache_inv two_blocks one_cached \<and>
   fst (cache_add two_blocks one_cached 0x2008) \<and>
   fst (cache_query two_blocks (snd (cache_add two_blocks one_cached 0x2008))
          (get_size two_blocks 0x2008)) \<noteq> 0x2008"
  by code_simp

section \<open>The dispatcher\<close>

lemma c_mod_nonneg: "0 \<le> a \<Longrightarrow> 0 < b \<Longrightarrow> c_mod a b = a mod b"
proof (cases "a = 0")
  case True
  then show ?thesis
    by (simp add: c_mod_def c_div_def)
next
  case False
  assume "0 \<le> a" "0 < b"
  with False have "c_div a b = a div b"
    by (simp add: c_div_def)
  then show ?thesis
    by (simp add: c_mod_def minus_mult_div_eq_mod)
qed

lemma sint_of_nat_small: "k < 2 ^ 31 \<Longrightarrow> sint (of_nat k :: 32 word) = int k"
proof -
  assume k: "k < 2 ^ 31"
  then have "uint (of_nat k :: 32 word) = int k"
    by (simp add: uint_nat unat_of_nat take_bit_nat_eq_self)
  moreover have "signed_take_bit 31 (int k) = int k"
    using k by (intro signed_take_bit_int_eq_self) simp_all
  ultimately show ?thesis
    by (simp add: sint_uint)
qed

text \<open>
  While the counter is below \<open>2 ^ 31\<close> the index is the counter modulo the number of
  arenas, and \<open>get_arena\<close> returns an arena of the array.
\<close>

text \<open>The registry after start-up: ten arenas, the dispatch counter at 0.\<close>

lemma boot_registry:
  "max_arenas boot = 10 \<and> length (arenas boot) = 10 \<and> last_used boot = 0"
  by code_simp

lemma get_arena_in_range:
  assumes "0 < max_arenas st" "max_arenas st = int (length (arenas st))"
    and "last_used st = of_nat k" "k < 2 ^ 31"
  shows "get_arena st = Inr (k mod length (arenas st), st\<lparr>last_used := of_nat (Suc k)\<rparr>)"
proof -
  have "sint (last_used st) = int k"
    using assms(3,4) by (simp add: sint_of_nat_small)
  then have idx: "get_arena_index st = int k mod int (length (arenas st))"
    using assms(1,2) by (simp add: get_arena_index_def c_mod_nonneg)
  have "0 \<le> int k mod int (length (arenas st))"
    "int k mod int (length (arenas st)) < int (length (arenas st))"
    using assms(1,2) by simp_all
  moreover have "nat (int k mod int (length (arenas st))) = k mod length (arenas st)"
    by (simp add: nat_mod_distrib)
  ultimately show ?thesis
    using assms(1,3) idx by (simp add: get_arena_def Let_def)
qed

lemma get_arena_calls_counter:
  "0 < max_arenas st \<Longrightarrow> max_arenas st = int (length (arenas st)) \<Longrightarrow>
   last_used st = of_nat k \<Longrightarrow> k + n \<le> 2 ^ 31 \<Longrightarrow>
     get_arena_calls n st = Inr (st\<lparr>last_used := of_nat (k + n)\<rparr>)"
proof (induction n arbitrary: st k)
  case 0
  then show ?case
    by simp
next
  case (Suc n)
  from Suc.prems have k: "k < 2 ^ 31"
    by simp
  let ?st1 = "st\<lparr>last_used := of_nat (Suc k)\<rparr>"
  have step: "get_arena st = Inr (k mod length (arenas st), ?st1)"
    using Suc.prems(1,2,3) k by (rule get_arena_in_range)
  have "get_arena_calls n ?st1 = Inr (?st1\<lparr>last_used := of_nat (Suc k + n)\<rparr>)"
    using Suc.prems by (intro Suc.IH) simp_all
  with step show ?case
    by simp
qed

text \<open>
  Claim C5 says that the index \<open>get_arena\<close> computes lies in \<open>[0, N)\<close> for call sequences
  of any length, also after more than \<open>2 ^ 31\<close> increments of the signed 32-bit counter.
  The code does not keep that: with the ten arenas of the start state, \<open>2 ^ 31\<close> calls
  succeed and leave the counter at \<open>INT_MIN\<close>; for the next call the remainder
  \<open>last_used % max_arenas\<close> is \<open>-8\<close>, and \<open>arenas[-8]\<close> is outside the array.
\<close>

theorem get_arena_after_wrap:
  "get_arena_calls (2 ^ 31) boot = Inr (boot\<lparr>last_used := 0x80000000\<rparr>) \<and>
   get_arena_index (boot\<lparr>last_used := 0x80000000\<rparr>) = - 8 \<and>
   get_arena (boot\<lparr>last_used := 0x80000000\<rparr>) = Inl OutOfBounds"
proof (intro conjI)
  have reg: "max_arenas boot = 10" "length (arenas boot) = 10" "last_used boot = 0"
    using boot_registry by simp_all
  have "get_arena_calls (2 ^ 31) boot = Inr (boot\<lparr>last_used := of_nat (0 + 2 ^ 31)\<rparr>)"
    by (rule get_arena_calls_counter) (simp_all add: reg)
  then show "get_arena_calls (2 ^ 31) boot = Inr (boot\<lparr>last_used := 0x80000000\<rparr>)"
    by simp
  show idx: "get_arena_index (boot\<lparr>last_used := 0x80000000\<rparr>) = - 8"
    by (simp add: get_arena_index_def reg c_mod_def c_div_def)
  then show "get_arena (boot\<lparr>last_used := 0x80000000\<rparr>) = Inl OutOfBounds"
    by (simp add: get_arena_def Let_def reg)
qed

section \<open>Extending an arena\<close>

text \<open>As long as no sum leaves the 64-bit address space, \<open>extend_arena\<close> does what is asked.\<close>

lemma extend_arena_no_overflow:
  assumes "unat (heap_end a) + unat len < 2 ^ 64"
    and "unat (low a) + unat (arena_size a) < 2 ^ 64"
  shows "extend_arena a len =
           (if unat (heap_end a) + unat len > unat (low a) + unat (arena_size a) then (NULL, a)
            else (heap_end a, a\<lparr>heap_end := heap_end a + len\<rparr>))"
proof -
  have 1: "unat (heap_end a + len) = unat (heap_end a) + unat len"
    using assms(1) by (rule unat_plus64)
  have 2: "unat (low a + arena_size a) = unat (low a) + unat (arena_size a)"
    using assms(2) by (rule unat_plus64)
  show ?thesis
    by (simp add: extend_arena_def Let_def word_less_nat_alt 1 2)
qed

text \<open>
  Claim C7 says that \<open>extend_arena\<close> fails exactly when \<open>heap_end + length\<close> would exceed
  \<open>low + size\<close>, for every length.  The code computes \<open>heap_end + length\<close> in 64 bits and
  does not check for overflow: on the first arena after start-up (\<open>low = 0x10000000\<close>,
  128 MiB, \<open>heap_end = 0x10001010\<close>) a request for \<open>2 ^ 64 - 32\<close> bytes, far beyond the
  mapping, returns the old \<open>heap_end\<close> instead of \<open>NULL\<close> and moves \<open>heap_end\<close> 32 bytes
  down.
\<close>

theorem extend_arena_wraps:
  "let a = arenas boot ! 0 in
     low a = 0x10000000 \<and> arena_size a = 0x8000000 \<and> heap_end a = 0x10001010 \<and>
     extend_arena a 0xFFFFFFFFFFFFFFE0 = (0x10001010, a\<lparr>heap_end := 0x10000FF0\<rparr>)"
  by code_simp

text \<open>
  Such a length reaches \<open>extend_arena\<close> from the public interface: right after start-up
  \<open>arena_malloc(2 ^ 64 - 40)\<close> returns a pointer, leaves \<open>heap_end\<close> of the arena below the
  \<open>0x10001010\<close> it had, and puts a block that starts below the arena's mapping on a free
  list.
\<close>

lemma arena_malloc_huge:
  "case arena_malloc MAP_FAILED boot 0xFFFFFFFFFFFFFFD8 of
     Inl _ \<Rightarrow> False
   | Inr (p, st1) \<Rightarrow>
       p = 0x10000010 \<and> low (arenas st1 ! 0) = 0x10000000 \<and>
       heap_end (arenas st1 ! 0) = 0x10000FF0 \<and>
       seglists (arenas st1 ! 0) ! 7 = 0x0FFFFFE8"
  by code_simp

section \<open>Searching the free lists\<close>

lemma min_list_for_bound: "min_list_for asize < MAXLISTS"
  by (simp add: min_list_for_def Let_def MAXLISTS_def)

text \<open>The arena variants probe the list of the class of \<open>asize\<close> and the next one only.\<close>

lemma find_fit_two_lists:
  "find_fit m a asize =
     (let c = min_list_for asize;
          b = search_list m (seglists a ! c) asize
      in if b \<noteq> NULL then b
         else if Suc c < MAXLISTS then search_list m (seglists a ! Suc c) asize
         else NULL)"
proof -
  let ?c = "min_list_for asize"
  have c: "?c < MAXLISTS"
    by (rule min_list_for_bound)
  have stop: "find_fit_loop m (seglists a) asize ?c (Suc (Suc ?c)) = NULL"
    by (subst find_fit_loop.simps) simp
  have second: "find_fit_loop m (seglists a) asize ?c (Suc ?c) =
          (if Suc ?c < MAXLISTS then search_list m (seglists a ! Suc ?c) asize else NULL)"
    using stop by (subst find_fit_loop.simps) (simp add: Let_def)
  have "find_fit_loop m (seglists a) asize ?c ?c =
          (if search_list m (seglists a ! ?c) asize \<noteq> NULL
           then search_list m (seglists a ! ?c) asize
           else find_fit_loop m (seglists a) asize ?c (Suc ?c))"
    using c by (subst find_fit_loop.simps) (simp add: Let_def)
  with second show ?thesis
    by (simp add: find_fit_def Let_def)
qed

text \<open>
  Claim C4 says that \<open>find_fit\<close> probes the lists \<open>c_min\<close> and \<open>c_min + 1\<close> only, in every
  variant, the naive one included.  The naive variant's loop condition tests
  \<open>min_list_ind + SEARCHCOUNT\<close>, which is never 0, so it goes on to list 14.  On the heap
  as \<open>mm_init\<close> leaves it (program break at \<open>0x10000000\<close>; one free block of 4096 bytes,
  in list 7) a request of adjusted size 32, whose class is 0, is served by the naive
  \<open>find_fit\<close> from list 7, while the arena variants' \<open>find_fit\<close> finds nothing in lists 0
  and 1 and returns \<open>NULL\<close>.
\<close>

theorem naive_find_fit_deep:
  "case mm_init 0x20000000 (\<lambda>_. 0) fresh_arena 0x10000000 of
     Inr (Some (m, g, brk)) \<Rightarrow>
       min_list_for 32 = 0 \<and>
       seglists g = (replicate MAXLISTS NULL)[7 := 0x10000008] \<and>
       get_size m 0x10000008 = 4096 \<and>
       naive_find_fit m (seglists g) 32 = 0x10000008 \<and>
       find_fit m g 32 = NULL
   | _ \<Rightarrow> False"
  by code_simp

section \<open>The arena+cache variant\<close>

lemma arena_internal_malloc_zero: "arena_internal_malloc m a 0 = Inr (NULL, m, a)"
  by (simp add: arena_internal_malloc_def)

text \<open>A query for 0 bytes is answered by any cached block.\<close>

lemma cache_query_zero:
  assumes inv: "cache_inv m c" and pos: "num_entries c > 0"
  shows "fst (cache_query m c 0) = elems c ! front c \<and> fst (cache_query m c 0) \<noteq> NULL"
proof -
  have len: "length (elems c) = CACHE_MAX_ENTRIES" and fr: "front c = first_occupied (elems c)"
    using inv by (simp_all add: cache_inv_def)
  have "first_fit_index m (elems c) 0 = first_occupied (elems c)"
    by (simp add: first_fit_index_def first_occupied_def)
  with fr have k: "first_fit_index m (elems c) 0 = front c"
    by simp
  from cache_evict_ok [OF inv pos] have "front c < CACHE_MAX_ENTRIES" "elems c ! front c \<noteq> NULL"
    by simp_all
  with k show ?thesis
    by (simp add: cache_query_first_fit [OF inv] Let_def)
qed

text \<open>
  Claim C2 says that \<open>alloc(0)\<close> returns none in all three variants, also when the thread
  cache is not empty.  \<open>arena_cached_malloc\<close> asks the cache before anything else and
  every cached block is large enough for 0 bytes: after \<open>p = alloc(8)\<close> and \<open>free(p)\<close>,
  \<open>alloc(0)\<close> returns \<open>p\<close>, which is not \<open>NULL\<close>.
\<close>

theorem cached_malloc_zero:
  "case arena_cached_malloc MAP_FAILED boot 8 of
     Inl _ \<Rightarrow> False
   | Inr (p, st1) \<Rightarrow>
       (case arena_cached_free 2147483647 0 st1 p of
          Inl _ \<Rightarrow> False
        | Inr st2 \<Rightarrow>
            (case arena_cached_malloc MAP_FAILED st2 0 of
               Inl _ \<Rightarrow> False
             | Inr (q, st3) \<Rightarrow> p = 0x10000010 \<and> q = p \<and> q \<noteq> NULL))"
  by code_simp

text \<open>
  Claim C1 says that the block behind a pointer returned by \<open>alloc(n)\<close> has at least
  \<open>round_up(n + 8, 16)\<close> bytes, on a cache hit too.  \<open>arena_cached_malloc\<close> queries the
  cache with \<open>n\<close> itself, not with the adjusted size: after \<open>p = alloc(8)\<close> and \<open>free(p)\<close>,
  \<open>alloc(32)\<close> returns \<open>p\<close>, whose block has 32 bytes, where \<open>round_up(32 + 8, 16)\<close> is 48.
\<close>

theorem cached_malloc_small_block:
  "case arena_cached_malloc MAP_FAILED boot 8 of
     Inl _ \<Rightarrow> False
   | Inr (p, st1) \<Rightarrow>
       (case arena_cached_free 2147483647 0 st1 p of
          Inl _ \<Rightarrow> False
        | Inr st2 \<Rightarrow>
            (case arena_cached_malloc MAP_FAILED st2 32 of
               Inl _ \<Rightarrow> False
             | Inr (q, st3) \<Rightarrow>
                 q = p \<and> q \<noteq> NULL \<and>
                 get_size (memory st3) (payload_to_header q) = 32 \<and>
                 round_up (32 + wsize) dsize = 48))"
  by code_simp

text \<open>
  Claim C3 says that \<open>cache_evict\<close> runs only on a cache that is not empty, so that its
  assertion holds.  \<open>arena_cached_free\<close> calls it after any failed \<open>cache_add\<close>, and
  \<open>cache_add\<close> also fails for a block larger than \<open>CACHE_MAX_SIZE\<close>: with \<open>p = alloc(2 MiB)\<close>
  on a fresh thread, the cache is empty, \<open>cache_add\<close> refuses the block, the guard is true
  (\<open>rand()\<close> returning 0) and \<open>cache_evict\<close> fails its assertion
  \<open>c->num_entries > 0\<close>.
\<close>

theorem cached_free_evicts_from_empty_cache:
  "case arena_cached_malloc MAP_FAILED boot 0x200000 of
     Inl _ \<Rightarrow> False
   | Inr (p, st1) \<Rightarrow>
       p \<noteq> NULL \<and>
       get_size (memory st1) (payload_to_header p) = 0x200010 \<and>
       num_entries (local_cache st1) = 0 \<and>
       front (local_cache st1) = CACHE_MAX_ENTRIES \<and>
       fst (cache_add (memory st1) (local_cache st1) (payload_to_header p)) = False \<and>
       evict_guard 2147483647 0 \<and>
       cache_evict (memory st1) (local_cache st1) = Inl AssertionFailed \<and>
       arena_cached_free 2147483647 0 st1 p = Inl AssertionFailed"
  by code_simp

section \<open>Coalescing\<close>

subsection \<open>Headers\<close>

lemma low_bits_extract_size: "extract_size w AND 0xF = 0"
  by (simp add: extract_size_def size_mask_def word_bw_assocs)

lemma low_bits_iff: "(w :: 64 word) AND 0xF = 0 \<longleftrightarrow> 16 dvd w"
proof -
  have "w AND 0xF = w AND mask 4"
    by (simp add: mask_eq_exp_minus_1)
  also have "\<dots> = take_bit 4 w"
    by (simp add: take_bit_eq_mask)
  finally have "w AND 0xF = 0 \<longleftrightarrow> take_bit 4 w = 0"
    by simp
  also have "\<dots> \<longleftrightarrow> 2 ^ 4 dvd w"
    by (rule take_bit_eq_0_iff)
  finally show ?thesis
    by simp
qed

lemma low_bits_add: "(a :: 64 word) AND 0xF = 0 \<Longrightarrow> b AND 0xF = 0 \<Longrightarrow> (a + b) AND 0xF = 0"
  by (simp add: low_bits_iff)

lemma fifteen_mask: "(0xF :: 64 word) = mask 4"
  by (simp add: mask_eq_exp_minus_1)

lemma low_bits_bit: "(sz :: 64 word) AND 0xF = 0 \<Longrightarrow> n < 4 \<Longrightarrow> \<not> bit sz n"
proof -
  assume a: "sz AND 0xF = 0" and n: "n < 4"
  have "bit (sz AND mask 4) n = bit (0 :: 64 word) n"
    using a by (simp add: fifteen_mask)
  with n show ?thesis
    by (simp add: bit_simps)
qed

lemma extract_size_pack: "sz AND 0xF = 0 \<Longrightarrow> extract_size (pack sz al pa) = sz"
proof (rule bit_word_eqI)
  fix n
  assume a: "sz AND 0xF = 0" and n: "n < LENGTH(64)"
  show "bit (extract_size (pack sz al pa)) n = bit sz n"
    using low_bits_bit [OF a, of n] n
    by (cases "n < 4")
      (auto simp: extract_size_def pack_def size_mask_def alloc_mask_def prev_alloc_mask_def
         Let_def fifteen_mask bit_simps)
qed

lemma extract_alloc_pack: "sz AND 0xF = 0 \<Longrightarrow> extract_alloc (pack sz al pa) = al"
proof -
  assume a: "sz AND 0xF = 0"
  have "pack sz al pa AND 1 = (if al then 1 else 0)"
  proof (rule bit_word_eqI)
    fix n
    assume "n < LENGTH(64)"
    show "bit (pack sz al pa AND 1) n = bit (if al then 1 else 0 :: 64 word) n"
      using low_bits_bit [OF a, of n]
      by (cases "n < 4")
        (auto simp: pack_def alloc_mask_def prev_alloc_mask_def Let_def bit_simps)
  qed
  then show ?thesis
    by (simp add: extract_alloc_def alloc_mask_def)
qed

lemma extract_prev_alloc_pack: "sz AND 0xF = 0 \<Longrightarrow> extract_prev_alloc (pack sz al pa) = pa"
proof -
  assume a: "sz AND 0xF = 0"
  have "pack sz al pa AND 2 = (if pa then 2 else 0)"
  proof (rule bit_word_eqI)
    fix n
    assume "n < LENGTH(64)"
    show "bit (pack sz al pa AND 2) n = bit (if pa then 2 else 0 :: 64 word) n"
      using low_bits_bit [OF a, of n]
      by (cases "n < 4")
        (auto simp: pack_def alloc_mask_def prev_alloc_mask_def Let_def bit_simps)
  qed
  then show ?thesis
    by (simp add: extract_prev_alloc_def prev_alloc_mask_def)
qed

lemma prev_link_inj [simp]: "prevBlockInList x = prevBlockInList y \<longleftrightarrow> x = y"
  by (simp add: prevBlockInList_def)

lemma next_link_inj [simp]: "nextBlockInList x = nextBlockInList y \<longleftrightarrow> x = y"
  by (simp add: nextBlockInList_def)

lemma fl_path_frame:
  "\<forall>x\<in>set xs. a \<noteq> prevBlockInList x \<and> a \<noteq> nextBlockInList x \<Longrightarrow>
     fl_path (m(a := v)) q h xs t = fl_path m q h xs t"
  by (induction xs arbitrary: q h) auto

lemma fl_path_nonnull: "fl_path m q h xs t \<Longrightarrow> NULL \<notin> set xs"
  by (induction xs arbitrary: q h) auto

lemma fl_path_append:
  "fl_path m q h (us @ vs) t \<longleftrightarrow>
     (\<exists>mid. fl_path m q h us mid \<and> fl_path m (last (q # us)) mid vs t)"
  by (induction us arbitrary: q h) auto

lemma fl_path_set_next:
  assumes "fl_path m q h (us @ [pr]) t" and "link_sep (us @ [pr])" and "pr \<notin> set us"
  shows "fl_path (m(nextBlockInList pr := t')) q h (us @ [pr]) t'"
proof -
  from assms(1) obtain mid where 1: "fl_path m q h us mid" and 2: "fl_path m (last (q # us)) mid [pr] t"
    by (auto simp: fl_path_append)
  have "\<forall>x\<in>set us. nextBlockInList pr \<noteq> prevBlockInList x \<and> nextBlockInList pr \<noteq> nextBlockInList x"
    using assms(2,3) by (auto simp: link_sep_def)
  then have "fl_path (m(nextBlockInList pr := t')) q h us mid"
    using 1 by (simp add: fl_path_frame)
  moreover have "fl_path (m(nextBlockInList pr := t')) (last (q # us)) mid [pr] t'"
    using 2 assms(2) by (auto simp: link_sep_def)
  ultimately show ?thesis
    by (auto simp: fl_path_append)
qed

lemma fl_path_set_prev:
  assumes "fl_path m q h (nx # vs) t" and "link_sep (nx # vs)" and "nx \<notin> set vs"
  shows "fl_path (m(prevBlockInList nx := q')) q' h (nx # vs) t"
proof -
  have "\<forall>x\<in>set vs. prevBlockInList nx \<noteq> prevBlockInList x \<and> prevBlockInList nx \<noteq> nextBlockInList x"
    using assms(2,3) by (auto simp: link_sep_def)
  then have "fl_path (m(prevBlockInList nx := q')) nx (m (nextBlockInList nx)) vs t =
             fl_path m nx (m (nextBlockInList nx)) vs t"
    by (rule fl_path_frame)
  moreover have "prevBlockInList nx \<noteq> nextBlockInList nx"
    using assms(2) by (auto simp: link_sep_def)
  ultimately show ?thesis
    using assms(1) by auto
qed

lemma link_sep_subset: "link_sep xs \<Longrightarrow> set ys \<subseteq> set xs \<Longrightarrow> link_sep ys"
  by (auto simp: link_sep_def)

text \<open>The neighbours in the list of a node of a well-formed list.\<close>

lemma fl_path_split:
  assumes "fl_path m NULL h (us @ x # vs) NULL"
  shows "fl_path m NULL h us x" and "m (prevBlockInList x) = last (NULL # us)"
    and "fl_path m x (m (nextBlockInList x)) vs NULL" and "x \<noteq> NULL"
  using assms by (auto simp: fl_path_append)

lemma fl_path_head: "fl_path m q h xs t \<Longrightarrow> xs \<noteq> [] \<Longrightarrow> h = hd xs \<and> h \<noteq> NULL"
  by (cases xs) auto

lemma sep_frame:
  assumes "link_sep xs" "set ys \<subseteq> set xs" "z \<in> set xs" "z \<notin> set ys"
  shows "\<forall>y\<in>set ys. prevBlockInList z \<noteq> prevBlockInList y \<and> prevBlockInList z \<noteq> nextBlockInList y"
    and "\<forall>y\<in>set ys. nextBlockInList z \<noteq> prevBlockInList y \<and> nextBlockInList z \<noteq> nextBlockInList y"
proof -
  have 1: "prevBlockInList z \<noteq> nextBlockInList y" "nextBlockInList z \<noteq> prevBlockInList y"
    if "y \<in> set ys" for y
  proof -
    from that assms(2) have y: "y \<in> set xs"
      by auto
    from assms(1) assms(3) y show "prevBlockInList z \<noteq> nextBlockInList y"
      unfolding link_sep_def by blast
    from assms(1) assms(3) y have "prevBlockInList y \<noteq> nextBlockInList z"
      unfolding link_sep_def by blast
    then show "nextBlockInList z \<noteq> prevBlockInList y"
      by (rule not_sym)
  qed
  have 2: "z \<noteq> y" if "y \<in> set ys" for y
    using that assms(4) by auto
  show "\<forall>y\<in>set ys. prevBlockInList z \<noteq> prevBlockInList y \<and> prevBlockInList z \<noteq> nextBlockInList y"
    using 1 2 by simp
  show "\<forall>y\<in>set ys. nextBlockInList z \<noteq> prevBlockInList y \<and> nextBlockInList z \<noteq> nextBlockInList y"
    using 1 2 by simp
qed

lemma unlink_middle:
  assumes path: "fl_path m NULL h (us @ pr # x # nx # vs) NULL"
    and dist: "distinct (us @ pr # x # nx # vs)" and sep: "link_sep (us @ pr # x # nx # vs)"
  shows "fl_path (m(nextBlockInList pr := nx, prevBlockInList nx := pr,
                    prevBlockInList x := NULL, nextBlockInList x := NULL))
           NULL h (us @ pr # nx # vs) NULL"
proof -
  let ?xs = "us @ pr # x # nx # vs"
  from path have p1: "fl_path m NULL h (us @ [pr]) x"
    and p2: "fl_path m x nx (nx # vs) NULL"
    using fl_path_split [of m h "us @ [pr]" x "nx # vs"] by auto
  let ?m1 = "m(nextBlockInList pr := nx)"
  have a1: "fl_path ?m1 NULL h (us @ [pr]) nx"
    using p1 sep dist by (intro fl_path_set_next) (auto intro: link_sep_subset)
  have "\<forall>y\<in>set (nx # vs). nextBlockInList pr \<noteq> prevBlockInList y \<and> nextBlockInList pr \<noteq> nextBlockInList y"
    using dist by (intro sep_frame(2) [OF sep]) auto
  then have b1: "fl_path ?m1 x nx (nx # vs) NULL"
    using p2 by (simp only: fl_path_frame)
  let ?m2 = "?m1(prevBlockInList nx := pr)"
  have b2: "fl_path ?m2 pr nx (nx # vs) NULL"
    using b1 sep dist by (intro fl_path_set_prev) (auto intro: link_sep_subset)
  have "\<forall>y\<in>set (us @ [pr]). prevBlockInList nx \<noteq> prevBlockInList y \<and> prevBlockInList nx \<noteq> nextBlockInList y"
    using dist by (intro sep_frame(1) [OF sep]) auto
  then have a2: "fl_path ?m2 NULL h (us @ [pr]) nx"
    using a1 by (simp only: fl_path_frame)
  from a2 b2 have c2: "fl_path ?m2 NULL h (us @ pr # nx # vs) NULL"
    using fl_path_append [of ?m2 NULL h "us @ [pr]" "nx # vs" NULL] by auto
  let ?m3 = "?m2(prevBlockInList x := NULL)"
  have "\<forall>y\<in>set (us @ pr # nx # vs). prevBlockInList x \<noteq> prevBlockInList y \<and> prevBlockInList x \<noteq> nextBlockInList y"
    using dist by (intro sep_frame(1) [OF sep]) auto
  then have c3: "fl_path ?m3 NULL h (us @ pr # nx # vs) NULL"
    using c2 by (simp only: fl_path_frame)
  have "\<forall>y\<in>set (us @ pr # nx # vs). nextBlockInList x \<noteq> prevBlockInList y \<and> nextBlockInList x \<noteq> nextBlockInList y"
    using dist by (intro sep_frame(2) [OF sep]) auto
  then show ?thesis
    using c3 by (simp only: fl_path_frame)
qed

lemma unlink_last:
  assumes path: "fl_path m NULL h (us @ [pr, x]) NULL"
    and dist: "distinct (us @ [pr, x])" and sep: "link_sep (us @ [pr, x])"
  shows "fl_path (m(nextBlockInList pr := NULL)) NULL h (us @ [pr]) NULL"
proof -
  from path have "fl_path m NULL h (us @ [pr]) x"
    using fl_path_split [of m h "us @ [pr]" x "[]"] by auto
  then show ?thesis
    using sep dist by (intro fl_path_set_next) (auto intro: link_sep_subset)
qed

lemma unlink_first:
  assumes path: "fl_path m NULL h (x # nx # vs) NULL"
    and dist: "distinct (x # nx # vs)" and sep: "link_sep (x # nx # vs)"
  shows "fl_path (m(prevBlockInList nx := NULL)) NULL nx (nx # vs) NULL"
proof -
  from path have "fl_path m x nx (nx # vs) NULL"
    by auto
  then show ?thesis
    using sep dist by (intro fl_path_set_prev) (auto intro: link_sep_subset)
qed

text \<open>
  \<open>delete_from_free_list\<close> on a member of a well-formed list: the list loses that member,
  and only link fields of members of the list are written.
\<close>

lemma delete_from_free_list_chain:
  assumes path: "fl_path m NULL (seglists a ! c) xs NULL" and dist: "distinct xs"
    and x: "x \<in> set xs" and sep: "link_sep xs"
    and cls: "find_list_for_block m x = c" and c: "c < length (seglists a)"
  shows "\<exists>m' h'. delete_from_free_list m a x = (m', a\<lparr>seglists := (seglists a)[c := h']\<rparr>) \<and>
           fl_path m' NULL h' (remove1 x xs) NULL \<and>
           (\<forall>ad. (\<forall>y\<in>set xs. ad \<noteq> prevBlockInList y \<and> ad \<noteq> nextBlockInList y) \<longrightarrow> m' ad = m ad)"
proof -
  let ?h = "seglists a ! c"
  from x obtain us vs where xs: "xs = us @ x # vs"
    by (auto dest: split_list)
  with dist have nin: "x \<notin> set us" "x \<notin> set vs"
    by auto
  then have rem: "remove1 x xs = us @ vs"
    by (simp add: xs remove1_append)
  have hd: "?h \<noteq> NULL"
    using fl_path_head [OF path] xs by auto
  have nonnull: "NULL \<notin> set xs"
    using path by (rule fl_path_nonnull)
  have prev: "m (prevBlockInList x) = last (NULL # us)"
    and nxt: "fl_path m x (m (nextBlockInList x)) vs NULL"
    using fl_path_split [of m ?h us x vs] path xs by auto
  have same: "a\<lparr>seglists := (seglists a)[c := ?h]\<rparr> = a"
    by simp
  show ?thesis
  proof (cases us rule: rev_cases)
    case Nil
    then have p0: "m (prevBlockInList x) = NULL"
      using prev by simp
    have hx: "?h = x"
      using path xs Nil by simp
    show ?thesis
    proof (cases vs)
      case vsNil: Nil
      then have n0: "m (nextBlockInList x) = NULL"
        using nxt by simp
      have "delete_from_free_list m a x = (m, a\<lparr>seglists := (seglists a)[c := NULL]\<rparr>)"
        using hd p0 n0 cls by (simp add: delete_from_free_list_def Let_def)
      moreover have "fl_path m NULL NULL (remove1 x xs) NULL"
        using rem Nil vsNil by simp
      ultimately show ?thesis
        by blast
    next
      case (Cons nx vs')
      then have n1: "m (nextBlockInList x) = nx" "nx \<noteq> NULL"
        using nxt by auto
      have "delete_from_free_list m a x =
              (m(prevBlockInList nx := NULL), a\<lparr>seglists := (seglists a)[c := nx]\<rparr>)"
        using hd p0 n1 cls by (simp add: delete_from_free_list_def Let_def)
      moreover have "fl_path (m(prevBlockInList nx := NULL)) NULL nx (remove1 x xs) NULL"
        using unlink_first [of m ?h x nx vs'] path dist sep xs Nil Cons rem by simp
      moreover have "\<forall>ad. (\<forall>y\<in>set xs. ad \<noteq> prevBlockInList y \<and> ad \<noteq> nextBlockInList y) \<longrightarrow>
                       (m(prevBlockInList nx := NULL)) ad = m ad"
        using xs Cons by auto
      ultimately show ?thesis
        by blast
    qed
  next
    case (snoc us' pr)
    then have "pr \<in> set xs"
      using xs by simp
    with nonnull have prn: "pr \<noteq> NULL"
      by auto
    have p1: "m (prevBlockInList x) = pr"
      using prev snoc by simp
    show ?thesis
    proof (cases vs)
      case Nil
      then have n0: "m (nextBlockInList x) = NULL"
        using nxt by simp
      have "delete_from_free_list m a x = (m(nextBlockInList pr := NULL), a)"
        using hd p1 prn n0 cls by (simp add: delete_from_free_list_def Let_def)
      then have "delete_from_free_list m a x =
                   (m(nextBlockInList pr := NULL), a\<lparr>seglists := (seglists a)[c := ?h]\<rparr>)"
        using same by simp
      moreover have "fl_path (m(nextBlockInList pr := NULL)) NULL ?h (remove1 x xs) NULL"
        using unlink_last [of m ?h us' pr x] path dist sep xs snoc Nil rem by simp
      moreover have "\<forall>ad. (\<forall>y\<in>set xs. ad \<noteq> prevBlockInList y \<and> ad \<noteq> nextBlockInList y) \<longrightarrow>
                       (m(nextBlockInList pr := NULL)) ad = m ad"
        using xs snoc by auto
      ultimately show ?thesis
        by blast
    next
      case (Cons nx vs')
      then have n1: "m (nextBlockInList x) = nx" "nx \<noteq> NULL"
        using nxt by auto
      let ?m4 = "m(nextBlockInList pr := nx, prevBlockInList nx := pr,
                   prevBlockInList x := NULL, nextBlockInList x := NULL)"
      have "delete_from_free_list m a x = (?m4, a)"
        using hd p1 prn n1 cls by (simp add: delete_from_free_list_def Let_def)
      then have "delete_from_free_list m a x = (?m4, a\<lparr>seglists := (seglists a)[c := ?h]\<rparr>)"
        using same by simp
      moreover have "fl_path ?m4 NULL ?h (remove1 x xs) NULL"
        using unlink_middle [of m ?h us' pr x nx vs'] path dist sep xs snoc Cons rem by simp
      moreover have "\<forall>ad. (\<forall>y\<in>set xs. ad \<noteq> prevBlockInList y \<and> ad \<noteq> nextBlockInList y) \<longrightarrow>
                       ?m4 ad = m ad"
        using xs snoc Cons by auto
      ultimately show ?thesis
        by blast
    qed
  qed
qed

lemma unat_link:
  assumes "valid_block m y"
  shows "unat (prevBlockInList y) = unat y + 8" and "unat (nextBlockInList y) = unat y + 16"
proof -
  have "unat y + unat (8 :: 64 word) < 2 ^ 64" "unat y + unat (16 :: 64 word) < 2 ^ 64"
    using assms by (simp_all add: valid_block_def)
  then show "unat (prevBlockInList y) = unat y + 8" "unat (nextBlockInList y) = unat y + 16"
    unfolding prevBlockInList_def nextBlockInList_def
    using unat_plus64 [of y 8] unat_plus64 [of y 16] by simp_all
qed

lemma outside_not_link:
  assumes "valid_block m y" "outside m y z"
  shows "z \<noteq> prevBlockInList y" "z \<noteq> nextBlockInList y"
proof -
  have "unat z \<noteq> unat y + 8" "unat z \<noteq> unat y + 16"
    using assms by (auto simp: valid_block_def outside_def)
  then show "z \<noteq> prevBlockInList y" "z \<noteq> nextBlockInList y"
    using unat_link [OF assms(1)] by auto
qed

lemma disjoint_outside: "disjoint_blocks m x y \<Longrightarrow> outside m y x"
  by (auto simp: disjoint_blocks_def outside_def)

lemma outside_self: "outside m y y"
  by (simp add: outside_def)

lemma links_differ:
  assumes "valid_block m x" "valid_block m y" "x = y \<or> disjoint_blocks m x y"
  shows "prevBlockInList x \<noteq> nextBlockInList y"
proof -
  have "unat x + 8 \<noteq> unat y + 16"
    using assms by (auto simp: valid_block_def disjoint_blocks_def)
  then show ?thesis
    using unat_link [OF assms(1)] unat_link [OF assms(2)] by auto
qed

lemma lists_ok_len: "lists_ok m a ls \<Longrightarrow> length ls = MAXLISTS \<and> length (seglists a) = MAXLISTS"
  unfolding lists_ok_def by blast

lemma lists_ok_path:
  "lists_ok m a ls \<Longrightarrow> c < MAXLISTS \<Longrightarrow> fl_path m NULL (seglists a ! c) (ls ! c) NULL"
  by (simp add: lists_ok_def)

lemma lists_ok_distinct: "lists_ok m a ls \<Longrightarrow> c < MAXLISTS \<Longrightarrow> distinct (ls ! c)"
  by (simp add: lists_ok_def)

lemma lists_ok_class:
  "lists_ok m a ls \<Longrightarrow> c < MAXLISTS \<Longrightarrow> x \<in> set (ls ! c) \<Longrightarrow> find_list_for_block m x = c"
  by (simp add: lists_ok_def)

lemma lists_ok_valid: "lists_ok m a ls \<Longrightarrow> x \<in> listed ls \<Longrightarrow> valid_block m x"
  unfolding lists_ok_def by blast

lemma lists_ok_disjoint:
  "lists_ok m a ls \<Longrightarrow> x \<in> listed ls \<Longrightarrow> y \<in> listed ls \<Longrightarrow> x \<noteq> y \<Longrightarrow> disjoint_blocks m x y"
  unfolding lists_ok_def by blast

lemma listed_nth: "c < length ls \<Longrightarrow> x \<in> set (ls ! c) \<Longrightarrow> x \<in> listed ls"
  unfolding listed_def using nth_mem [of c ls] by auto

lemma listed_obtain:
  assumes "x \<in> listed ls"
  shows "\<exists>c<length ls. x \<in> set (ls ! c)"
proof -
  from assms obtain l where "l \<in> set ls" "x \<in> set l"
    unfolding listed_def by auto
  then show ?thesis
    by (metis in_set_conv_nth)
qed

lemma listed_remove1: "listed (map (remove1 x) ls) \<subseteq> listed ls"
  unfolding listed_def using set_remove1_subset by fastforce

lemma fl_path_cong:
  "\<forall>y\<in>set xs. m' (prevBlockInList y) = m (prevBlockInList y) \<and>
               m' (nextBlockInList y) = m (nextBlockInList y) \<Longrightarrow>
     fl_path m' q h xs t = fl_path m q h xs t"
  by (induction xs arbitrary: q h) auto

lemma same_header:
  assumes "m' x = m x"
  shows "get_size m' x = get_size m x" "get_alloc m' x = get_alloc m x"
    "get_prev_alloc m' x = get_prev_alloc m x" "find_list_for_block m' x = find_list_for_block m x"
    "valid_block m' x = valid_block m x"
  using assms
  by (simp_all add: get_size_def get_alloc_def get_prev_alloc_def find_list_for_block_def
      valid_block_def)

lemma same_headers_disjoint:
  "m' x = m x \<Longrightarrow> m' y = m y \<Longrightarrow> disjoint_blocks m' x y = disjoint_blocks m x y"
  by (simp add: disjoint_blocks_def get_size_def)

lemma lists_ok_outside_member:
  assumes ok: "lists_ok m a ls" and x: "x \<in> listed ls" and y: "y \<in> listed ls"
  shows "outside m y x"
proof (cases "x = y")
  case True
  then show ?thesis by (simp add: outside_self)
next
  case False
  with ok x y have "disjoint_blocks m x y"
    by (intro lists_ok_disjoint)
  then show ?thesis
    by (rule disjoint_outside)
qed

lemma lists_ok_links_differ:
  assumes ok: "lists_ok m a ls" and x: "x \<in> listed ls" and y: "y \<in> listed ls"
  shows "prevBlockInList x \<noteq> nextBlockInList y"
proof (rule links_differ [of m])
  show "valid_block m x" "valid_block m y"
    using ok x y by (auto intro: lists_ok_valid)
  show "x = y \<or> disjoint_blocks m x y"
    using lists_ok_disjoint [OF ok x y] by blast
qed

lemma lists_ok_link_sep:
  assumes ok: "lists_ok m a ls" and c: "c < MAXLISTS"
  shows "link_sep (ls ! c)"
  unfolding link_sep_def
proof (intro ballI)
  fix x y assume "x \<in> set (ls ! c)" "y \<in> set (ls ! c)"
  then have "x \<in> listed ls" "y \<in> listed ls"
    using lists_ok_len [OF ok] c by (auto intro: listed_nth)
  then show "prevBlockInList x \<noteq> nextBlockInList y"
    by (rule lists_ok_links_differ [OF ok])
qed

text \<open>An address outside the extents of all listed blocks is no link field of any.\<close>

lemma outside_all_not_link:
  assumes ok: "lists_ok m a ls" and out: "\<forall>y\<in>listed ls. outside m y z"
    and y: "y \<in> listed ls"
  shows "z \<noteq> prevBlockInList y \<and> z \<noteq> nextBlockInList y"
proof -
  have "valid_block m y" "outside m y z"
    using ok out y by (auto intro: lists_ok_valid)
  then show ?thesis
    using outside_not_link [of m y z] by blast
qed

lemma delete_ok:
  assumes ok: "lists_ok m a ls" and x: "x \<in> listed ls"
  shows "\<exists>m' a'. delete_from_free_list m a x = (m', a') \<and>
           lists_ok m' a' (map (remove1 x) ls) \<and>
           (\<forall>z. (\<forall>y\<in>listed ls. outside m y z) \<longrightarrow> m' z = m z)"
proof -
  have len: "length ls = MAXLISTS" "length (seglists a) = MAXLISTS"
    using lists_ok_len [OF ok] by simp_all
  from listed_obtain [OF x] len obtain c where c: "c < MAXLISTS" "x \<in> set (ls ! c)"
    by auto
  have path: "fl_path m NULL (seglists a ! c) (ls ! c) NULL"
    using ok c(1) by (rule lists_ok_path)
  have dist: "distinct (ls ! c)"
    using ok c(1) by (rule lists_ok_distinct)
  have cls: "find_list_for_block m x = c"
    using ok c by (rule lists_ok_class)
  have sep: "link_sep (ls ! c)"
    using ok c(1) by (rule lists_ok_link_sep)
  have clen: "c < length (seglists a)"
    using c(1) len by simp
  from delete_from_free_list_chain [OF path dist c(2) sep cls clen]
  obtain m' h' where del: "delete_from_free_list m a x = (m', a\<lparr>seglists := (seglists a)[c := h']\<rparr>)"
    and path': "fl_path m' NULL h' (remove1 x (ls ! c)) NULL"
    and frame: "\<forall>ad. (\<forall>y\<in>set (ls ! c). ad \<noteq> prevBlockInList y \<and> ad \<noteq> nextBlockInList y) \<longrightarrow> m' ad = m ad"
    by auto
  let ?a' = "a\<lparr>seglists := (seglists a)[c := h']\<rparr>" and ?ls' = "map (remove1 x) ls"
  have inl: "y \<in> listed ls" if "y \<in> set (ls ! c')" "c' < MAXLISTS" for y c'
    using that len by (auto intro: listed_nth)
  have out: "m' z = m z" if "\<forall>y\<in>listed ls. outside m y z" for z
  proof -
    have "\<forall>y\<in>set (ls ! c). z \<noteq> prevBlockInList y \<and> z \<noteq> nextBlockInList y"
      using outside_all_not_link [OF ok that] inl c(1) by blast
    with frame show ?thesis
      by blast
  qed
  have hdr: "m' y = m y" if "y \<in> listed ls" for y
    using out [of y] lists_ok_outside_member [OF ok that] by blast
  have sub: "listed ?ls' \<subseteq> listed ls"
    by (rule listed_remove1)
  have "lists_ok m' ?a' ?ls'"
    unfolding lists_ok_def
  proof (intro conjI allI impI ballI)
    show "length ?ls' = MAXLISTS" "length (seglists ?a') = MAXLISTS"
      using len by simp_all
  next
    fix c' assume "c' \<in> set [0..<MAXLISTS]"
    then have c': "c' < MAXLISTS"
      by simp
    have nth': "?ls' ! c' = remove1 x (ls ! c')"
      using c' len by simp
    show "distinct (?ls' ! c')"
      using lists_ok_distinct [OF ok c'] nth' by simp
    show "fl_path m' NULL (seglists ?a' ! c') (?ls' ! c') NULL"
    proof (cases "c' = c")
      case True
      with path' nth' c(1) len show ?thesis
        by simp
    next
      case False
      have notin: "x \<notin> set (ls ! c')"
      proof
        assume "x \<in> set (ls ! c')"
        with ok c' have "find_list_for_block m x = c'"
          by (intro lists_ok_class)
        with cls False show False
          by simp
      qed
      then have same: "?ls' ! c' = ls ! c'"
        using nth' by (simp add: remove1_idem)
      have "\<forall>y\<in>set (ls ! c'). m' (prevBlockInList y) = m (prevBlockInList y) \<and>
                               m' (nextBlockInList y) = m (nextBlockInList y)"
      proof
        fix y assume y: "y \<in> set (ls ! c')"
        have ym: "y \<in> listed ls"
          using y c' by (rule inl)
        have "\<forall>u\<in>set (ls ! c). prevBlockInList y \<noteq> prevBlockInList u \<and> prevBlockInList y \<noteq> nextBlockInList u"
          and "\<forall>u\<in>set (ls ! c). nextBlockInList y \<noteq> prevBlockInList u \<and> nextBlockInList y \<noteq> nextBlockInList u"
        proof -
          have 1: "y \<noteq> u \<and> prevBlockInList y \<noteq> nextBlockInList u \<and> nextBlockInList y \<noteq> prevBlockInList u"
            if u: "u \<in> set (ls ! c)" for u
          proof -
            have um: "u \<in> listed ls"
              using u c(1) by (rule inl)
            have "find_list_for_block m u = c" "find_list_for_block m y = c'"
              using lists_ok_class [OF ok c(1) u] lists_ok_class [OF ok c' y] by simp_all
            with False have ne: "y \<noteq> u"
              by auto
            from lists_ok_links_differ [OF ok ym um] lists_ok_links_differ [OF ok um ym] ne
            show ?thesis
              by (simp add: eq_commute [of "nextBlockInList y"])
          qed
          show "\<forall>u\<in>set (ls ! c). prevBlockInList y \<noteq> prevBlockInList u \<and> prevBlockInList y \<noteq> nextBlockInList u"
            using 1 by simp
          show "\<forall>u\<in>set (ls ! c). nextBlockInList y \<noteq> prevBlockInList u \<and> nextBlockInList y \<noteq> nextBlockInList u"
            using 1 by simp
        qed
        with frame show "m' (prevBlockInList y) = m (prevBlockInList y) \<and>
                           m' (nextBlockInList y) = m (nextBlockInList y)"
          by blast
      qed
      then have "fl_path m' NULL (seglists a ! c') (ls ! c') NULL =
                   fl_path m NULL (seglists a ! c') (ls ! c') NULL"
        by (rule fl_path_cong)
      with lists_ok_path [OF ok c'] False same show ?thesis
        by simp
    qed
  next
    fix c' y assume "c' \<in> set [0..<MAXLISTS]" and y: "y \<in> set (?ls' ! c')"
    then have c': "c' < MAXLISTS"
      by simp
    with y have "y \<in> set (remove1 x (ls ! c'))"
      using len by simp
    then have y0: "y \<in> set (ls ! c')"
      using set_remove1_subset [of x "ls ! c'"] by blast
    then have "y \<in> listed ls"
      using c' by (rule inl)
    then have "find_list_for_block m' y = find_list_for_block m y"
      using same_header(4) [of m' y m] hdr by simp
    with lists_ok_class [OF ok c' y0] show "find_list_for_block m' y = c'"
      by simp
  next
    fix y assume "y \<in> listed ?ls'"
    with sub have y: "y \<in> listed ls"
      by blast
    show "valid_block m' y"
      using same_header(5) [of m' y m] hdr [OF y] lists_ok_valid [OF ok y] by simp
    fix z assume "z \<in> listed ?ls'"
    with sub have z: "z \<in> listed ls"
      by blast
    from lists_ok_disjoint [OF ok y z] have "y = z \<or> disjoint_blocks m y z"
      by blast
    then show "y = z \<or> disjoint_blocks m' y z"
      using same_headers_disjoint [of m' y m z] hdr [OF y] hdr [OF z] by simp
  qed
  with del out show ?thesis
    by blast
qed

lemma low_bits_get_size: "get_size m x AND 0xF = 0"
  by (simp add: get_size_def low_bits_extract_size)

lemma header_written:
  assumes "sz AND 0xF = 0" "m x = pack sz al pa"
  shows "get_size m x = sz" "get_alloc m x = al" "get_prev_alloc m x = pa"
  using assms
  by (simp_all add: get_size_def get_alloc_def get_prev_alloc_def extract_size_pack
      extract_alloc_pack extract_prev_alloc_pack)

lemma unat_minus8:
  assumes "8 \<le> unat (t :: 64 word)"
  shows "unat (t - 8) = unat t - 8"
proof -
  have "(8 :: 64 word) \<le> t"
    using assms by (simp add: word_le_nat_alt)
  then show ?thesis
    by (simp add: unat_sub)
qed

text \<open>The end of a region of \<open>t\<close> bytes at \<open>r\<close>, and its last word.\<close>

lemma region_addrs:
  fixes r t :: "64 word"
  assumes "32 \<le> unat t" "unat r + unat t < 2 ^ 64"
  shows "unat (r + t) = unat r + unat t" and "unat (r + t - 8) = unat r + unat t - 8"
proof -
  show 1: "unat (r + t) = unat r + unat t"
    using assms(2) by (rule unat_plus64)
  have "8 \<le> unat (r + t)"
    using 1 assms(1) by simp
  then have "unat (r + t - 8) = unat (r + t) - 8"
    by (rule unat_minus8)
  with 1 show "unat (r + t - 8) = unat r + unat t - 8"
    by simp
qed

lemma write_block_free:
  assumes "t AND 0xF = 0"
  shows "write_block m r t False pa = m(r := pack t False pa, r + t - 8 := pack t False pa)"
proof -
  have "get_size (m(r := pack t False pa)) r = t"
    using assms header_written(1) [where m = "m(r := pack t False pa)" and x = r and al = False and pa = pa and sz = t]
    by simp
  then have "header_to_footer (m(r := pack t False pa)) r = r + t - 8"
    by (simp add: header_to_footer_def header_to_payload_def wsize_def dsize_def)
  then show ?thesis
    by (simp add: write_block_def Let_def)
qed

lemma write_block_alloc: "write_block m x sz True pa = m(x := pack sz True pa)"
  by (simp add: write_block_def)

text \<open>
  The common end of the three merging cases: the merged block written at \<open>r\<close> with \<open>t\<close>
  bytes, and the header of the block after it updated.
\<close>

lemma coalesce_finish_merged:
  assumes ok: "lists_ok m a ls" and r: "r \<noteq> NULL"
    and t: "t AND 0xF = 0" "32 \<le> unat t" "unat r + unat t < 2 ^ 64"
    and out: "\<forall>y\<in>listed ls. unat y + unat (get_size m y) \<le> unat r \<or> unat r + unat t \<le> unat y"
    and al: "get_alloc m (r + t)"
  shows "\<exists>m'. coalesce_finish (write_block m r t False pa) a r = Inr (r, m', a) \<and>
           get_size m' r = t \<and> \<not> get_alloc m' r \<and> get_prev_alloc m' r = pa \<and>
           m' (r + t - 8) = m' r \<and>
           get_size m' (r + t) = get_size m (r + t) \<and> get_alloc m' (r + t) \<and>
           \<not> get_prev_alloc m' (r + t) \<and>
           (\<forall>c<MAXLISTS. fl_path m' NULL (seglists a ! c) (ls ! c) NULL)"
proof -
  let ?H = "pack t False pa" and ?f = "r + t - 8" and ?n = "r + t"
  let ?m3 = "m(r := ?H, ?f := ?H)"
  let ?E = "pack (get_size m ?n) True False"
  let ?m' = "?m3(?n := ?E)"
  have un: "unat ?n = unat r + unat t" and uf: "unat ?f = unat r + unat t - 8"
    using region_addrs [OF t(2,3)] by simp_all
  have ne: "?f \<noteq> r" "?n \<noteq> r" "?n \<noteq> ?f"
    using un uf t(2) by auto
  have w: "write_block m r t False pa = ?m3"
    using t(1) by (rule write_block_free)
  have hr: "?m3 r = ?H"
    using ne by simp
  have nxt: "find_next ?m3 r = ?n"
    using header_written(1) [where m = ?m3 and x = r, OF t(1) hr] by (simp add: find_next_def)
  have hn: "?m3 ?n = m ?n"
    using ne by simp
  have "get_size ?m3 ?n = get_size m ?n" "get_alloc ?m3 ?n = True"
    using same_header(1,2) [of ?m3 ?n m] hn al by simp_all
  then have fin: "coalesce_finish ?m3 a r = Inr (r, ?m', a)"
    using r nxt by (simp add: coalesce_finish_def Let_def write_block_alloc)
  have hr': "?m' r = ?H" and hf': "?m' ?f = ?H" and hn': "?m' ?n = ?E"
    using ne by simp_all
  have notlink: "z \<noteq> prevBlockInList y \<and> z \<noteq> nextBlockInList y"
    if y: "y \<in> listed ls" and z: "unat r \<le> unat z" "unat z \<le> unat r + unat t" for y z
  proof -
    have "outside m y z"
      using out y z by (auto simp: outside_def)
    with lists_ok_valid [OF ok y] show ?thesis
      using outside_not_link [of m y z] by blast
  qed
  have links: "?m' (prevBlockInList y) = m (prevBlockInList y) \<and>
               ?m' (nextBlockInList y) = m (nextBlockInList y)" if y: "y \<in> listed ls" for y
  proof -
    have "r \<noteq> prevBlockInList y \<and> r \<noteq> nextBlockInList y"
      by (rule notlink [OF y]) simp_all
    moreover have "?f \<noteq> prevBlockInList y \<and> ?f \<noteq> nextBlockInList y"
      by (rule notlink [OF y]) (use uf t(2) in simp_all)
    moreover have "?n \<noteq> prevBlockInList y \<and> ?n \<noteq> nextBlockInList y"
      by (rule notlink [OF y]) (use un in simp_all)
    ultimately show ?thesis
      by (simp add: eq_commute)
  qed
  have chains: "fl_path ?m' NULL (seglists a ! c) (ls ! c) NULL" if c: "c < MAXLISTS" for c
  proof -
    have "\<forall>y\<in>set (ls ! c). ?m' (prevBlockInList y) = m (prevBlockInList y) \<and>
                             ?m' (nextBlockInList y) = m (nextBlockInList y)"
      using links listed_nth [of c ls] c lists_ok_len [OF ok] by simp
    then have "fl_path ?m' NULL (seglists a ! c) (ls ! c) NULL =
                 fl_path m NULL (seglists a ! c) (ls ! c) NULL"
      by (rule fl_path_cong)
    with lists_ok_path [OF ok c] show ?thesis
      by simp
  qed
  have "get_size ?m' r = t" "\<not> get_alloc ?m' r" "get_prev_alloc ?m' r = pa"
    using header_written [where m = ?m' and x = r, OF t(1) hr'] by simp_all
  moreover have "?m' ?f = ?m' r"
    using hr' hf' by simp
  moreover have "get_size ?m' ?n = get_size m ?n" "get_alloc ?m' ?n" "\<not> get_prev_alloc ?m' ?n"
    using header_written [where m = ?m' and x = ?n, OF low_bits_get_size hn'] by simp_all
  ultimately show ?thesis
    using fin w chains by simp
qed

lemma listed_remove1_eq:
  assumes ok: "lists_ok m a ls"
  shows "listed (map (remove1 x) ls) = listed ls - {x}"
proof (intro set_eqI iffI)
  have len: "length ls = MAXLISTS"
    using lists_ok_len [OF ok] by simp
  fix y
  {
    assume "y \<in> listed (map (remove1 x) ls)"
    from listed_obtain [OF this] obtain c where c: "c < MAXLISTS" "y \<in> set (remove1 x (ls ! c))"
      using len by auto
    then have "y \<in> set (ls ! c) - {x}"
      using lists_ok_distinct [OF ok c(1)] by simp
    then show "y \<in> listed ls - {x}"
      using listed_nth [of c ls y] c(1) len by auto
  }
  {
    assume "y \<in> listed ls - {x}"
    then have y: "y \<in> listed ls" "y \<noteq> x"
      by auto
    from listed_obtain [OF y(1)] obtain c where c: "c < MAXLISTS" "y \<in> set (ls ! c)"
      using len by auto
    then have "y \<in> set (remove1 x (ls ! c))"
      using y(2) lists_ok_distinct [OF ok c(1)] by simp
    then have "y \<in> set (map (remove1 x) ls ! c)"
      using c(1) len by simp
    then show "y \<in> listed (map (remove1 x) ls)"
      using c(1) len by (intro listed_nth [of c]) simp_all
  }
qed

lemma listed_nonnull:
  assumes ok: "lists_ok m a ls" and y: "y \<in> listed ls"
  shows "y \<noteq> NULL"
proof -
  from listed_obtain [OF y] obtain c where c: "c < MAXLISTS" "y \<in> set (ls ! c)"
    using lists_ok_len [OF ok] by auto
  from fl_path_nonnull [OF lists_ok_path [OF ok c(1)]] c(2) show ?thesis
    by auto
qed

lemma remove1_as_filter: "distinct xs \<Longrightarrow> remove1 x xs = filter (\<lambda>y. y \<noteq> x) xs"
proof -
  assume "distinct xs"
  then have "remove1 x xs = removeAll x xs"
    by (rule distinct_remove1_removeAll)
  also have "\<dots> = filter (\<lambda>y. x \<noteq> y) xs"
    by (simp add: removeAll_filter_not_eq)
  also have "\<dots> = filter (\<lambda>y. y \<noteq> x) xs"
    by (rule filter_cong) auto
  finally show ?thesis .
qed

lemma valid_block_unat:
  assumes "valid_block m x"
  shows "unat (find_next m x) = unat x + unat (get_size m x)" and "32 \<le> unat (get_size m x)"
    and "unat x + unat (get_size m x) < 2 ^ 64"
proof -
  show "32 \<le> unat (get_size m x)" "unat x + unat (get_size m x) < 2 ^ 64"
    using assms by (simp_all add: valid_block_def)
  then show "unat (find_next m x) = unat x + unat (get_size m x)"
    unfolding find_next_def by (intro unat_plus64)
qed

lemma delete_ok_full:
  assumes ok: "lists_ok m a ls" and x: "x \<in> listed ls"
  obtains m' a' where "delete_from_free_list m a x = (m', a')"
    and "lists_ok m' a' (map (remove1 x) ls)"
    and "\<And>z. (\<forall>y\<in>listed ls. outside m y z) \<Longrightarrow> m' z = m z"
    and "\<And>y. y \<in> listed ls \<Longrightarrow> m' y = m y"
    and "listed (map (remove1 x) ls) = listed ls - {x}"
proof -
  from delete_ok [OF ok x] obtain m' a' where del: "delete_from_free_list m a x = (m', a')"
    and ok': "lists_ok m' a' (map (remove1 x) ls)"
    and frame: "\<forall>z. (\<forall>y\<in>listed ls. outside m y z) \<longrightarrow> m' z = m z"
    by blast
  have hdr: "m' y = m y" if "y \<in> listed ls" for y
    using frame lists_ok_outside_member [OF ok that] by blast
  show ?thesis
    using that [OF del ok' _ hdr listed_remove1_eq [OF ok]] frame by blast
qed

lemma free_chains_I:
  "(\<forall>c<MAXLISTS. fl_path m NULL (seglists a ! c) (ls ! c) NULL) \<Longrightarrow> free_chains m a ls"
  by (simp add: free_chains_def)

lemma coalesce_next_free:
  assumes pre: "coalesce_pre m a ls b"
    and pa: "get_prev_alloc m b" and na: "\<not> get_alloc m (find_next m b)"
  shows "\<exists>m' a'. coalesce_block m a b = Inr (b, m', a') \<and> \<not> get_alloc m' b \<and>
           get_size m' b = get_size m b + get_size m (find_next m b) \<and>
           free_chains m' a' (map (remove1 (find_next m b)) ls)"
proof -
  let ?n = "find_next m b"
  let ?nn = "find_next m ?n"
  let ?sz = "get_size m b" and ?nsz = "get_size m ?n"
  let ?t = "?sz + ?nsz"
  have ok: "lists_ok m a ls" and bn: "b \<noteq> NULL" and bv: "valid_block m b"
    and dis: "\<forall>x\<in>listed ls. disjoint_blocks m b x"
    using pre by (simp_all add: coalesce_pre_def)
  have nl: "?n \<in> listed ls" and nna: "get_alloc m ?nn"
    using pre na by (auto simp: coalesce_pre_def)
  have nv: "valid_block m ?n"
    using ok nl by (rule lists_ok_valid)
  note ub = valid_block_unat [OF bv] and un = valid_block_unat [OF nv]
  have ut: "unat ?t = unat ?sz + unat ?nsz"
    using ub un by (intro unat_plus64) simp
  have bt: "b + ?t = ?nn"
    by (simp add: find_next_def add.assoc)
  from delete_ok_full [OF ok nl] obtain m1 a1
    where del: "delete_from_free_list m a ?n = (m1, a1)"
      and ok1: "lists_ok m1 a1 (map (remove1 ?n) ls)"
      and frame: "\<And>z. (\<forall>y\<in>listed ls. outside m y z) \<Longrightarrow> m1 z = m z"
      and hdr: "\<And>y. y \<in> listed ls \<Longrightarrow> m1 y = m y"
      and l1: "listed (map (remove1 ?n) ls) = listed ls - {?n}"
    by blast
  have "\<forall>y\<in>listed ls. outside m y ?nn"
  proof
    fix y assume y: "y \<in> listed ls"
    show "outside m y ?nn"
    proof (cases "y = ?n")
      case True
      then show ?thesis
        using un by (simp add: outside_def)
    next
      case False
      from lists_ok_disjoint [OF ok y nl False] show ?thesis
        using un by (auto simp: disjoint_blocks_def outside_def)
    qed
  qed
  then have "m1 ?nn = m ?nn"
    by (rule frame)
  then have al: "get_alloc m1 (b + ?t)"
    using nna bt same_header(2) [of m1 ?nn m] by simp
  have out: "\<forall>y\<in>listed (map (remove1 ?n) ls).
               unat y + unat (get_size m1 y) \<le> unat b \<or> unat b + unat ?t \<le> unat y"
  proof
    fix y assume "y \<in> listed (map (remove1 ?n) ls)"
    with l1 have y: "y \<in> listed ls" "y \<noteq> ?n"
      by auto
    have s: "get_size m1 y = get_size m y"
      using same_header(1) [of m1 y m] hdr [OF y(1)] by simp
    have "32 \<le> unat (get_size m y)"
      using lists_ok_valid [OF ok y(1)] by (simp add: valid_block_def)
    moreover have "disjoint_blocks m b y"
      using dis y(1) by blast
    moreover have "disjoint_blocks m y ?n"
      using lists_ok_disjoint [OF ok y(1) nl y(2)] .
    ultimately show "unat y + unat (get_size m1 y) \<le> unat b \<or> unat b + unat ?t \<le> unat y"
      using ub un ut s by (auto simp: disjoint_blocks_def)
  qed
  have t: "?t AND 0xF = 0" "32 \<le> unat ?t" "unat b + unat ?t < 2 ^ 64"
    using ub un ut by (simp_all add: low_bits_add low_bits_get_size)
  from coalesce_finish_merged [OF ok1 bn t out al, of True]
  obtain m' where fin: "coalesce_finish (write_block m1 b ?t False True) a1 b = Inr (b, m', a1)"
    and res: "get_size m' b = ?t" "\<not> get_alloc m' b"
    and ch: "\<forall>c<MAXLISTS. fl_path m' NULL (seglists a1 ! c) (map (remove1 ?n) ls ! c) NULL"
    by blast
  have "coalesce_block m a b = Inr (b, m', a1)"
    using pa na del fin by (simp add: coalesce_block_def Let_def)
  with res free_chains_I [OF ch] show ?thesis
    by blast
qed

lemma coalesce_prev_free:
  assumes pre: "coalesce_pre m a ls b"
    and pa: "\<not> get_prev_alloc m b" and na: "get_alloc m (find_next m b)"
  shows "\<exists>m' a'. coalesce_block m a b = Inr (find_prev m b, m', a') \<and>
           \<not> get_alloc m' (find_prev m b) \<and>
           get_size m' (find_prev m b) = get_size m b + get_size m (find_prev m b) \<and>
           free_chains m' a' (map (remove1 (find_prev m b)) ls)"
proof -
  let ?n = "find_next m b" and ?p = "find_prev m b"
  let ?sz = "get_size m b" and ?psz = "get_size m ?p"
  let ?t = "?sz + ?psz"
  have ok: "lists_ok m a ls" and bv: "valid_block m b"
    and dis: "\<forall>x\<in>listed ls. disjoint_blocks m b x"
    using pre by (simp_all add: coalesce_pre_def)
  have pl: "?p \<in> listed ls" and adj: "find_next m ?p = b"
    using pre pa by (auto simp: coalesce_pre_def)
  have pv: "valid_block m ?p"
    using ok pl by (rule lists_ok_valid)
  have pn: "?p \<noteq> NULL"
    using ok pl by (rule listed_nonnull)
  note ub = valid_block_unat [OF bv] and up = valid_block_unat [OF pv]
  have upb: "unat b = unat ?p + unat ?psz"
    using up(1) adj by simp
  have plt: "unat ?p < unat b"
    using upb up(2) by arith
  then have ne: "?p \<noteq> b"
    by auto
  have ut: "unat ?t = unat ?sz + unat ?psz"
    using ub up upb by (intro unat_plus64) simp
  have pb: "?p + ?psz = b"
    using adj by (simp add: find_next_def)
  have "?p + ?t = (?p + ?psz) + ?sz"
    by (simp add: ac_simps)
  then have pt: "?p + ?t = ?n"
    by (simp only: pb find_next_def)
  from delete_ok_full [OF ok pl] obtain m1 a1
    where del: "delete_from_free_list m a ?p = (m1, a1)"
      and ok1: "lists_ok m1 a1 (map (remove1 ?p) ls)"
      and frame: "\<And>z. (\<forall>y\<in>listed ls. outside m y z) \<Longrightarrow> m1 z = m z"
      and hdr: "\<And>y. y \<in> listed ls \<Longrightarrow> m1 y = m y"
      and l1: "listed (map (remove1 ?p) ls) = listed ls - {?p}"
    by blast
  have "\<forall>y\<in>listed ls. outside m y ?n"
  proof
    fix y assume y: "y \<in> listed ls"
    then have "disjoint_blocks m b y"
      using dis by blast
    then show "outside m y ?n"
      using ub by (auto simp: disjoint_blocks_def outside_def)
  qed
  then have "m1 ?n = m ?n"
    by (rule frame)
  then have al: "get_alloc m1 (?p + ?t)"
    using na pt same_header(2) [of m1 ?n m] by simp
  have out: "\<forall>y\<in>listed (map (remove1 ?p) ls).
               unat y + unat (get_size m1 y) \<le> unat ?p \<or> unat ?p + unat ?t \<le> unat y"
  proof
    fix y assume "y \<in> listed (map (remove1 ?p) ls)"
    with l1 have y: "y \<in> listed ls" "y \<noteq> ?p"
      by auto
    have s: "get_size m1 y = get_size m y"
      using same_header(1) [of m1 y m] hdr [OF y(1)] by simp
    have "32 \<le> unat (get_size m y)"
      using lists_ok_valid [OF ok y(1)] by (simp add: valid_block_def)
    moreover have "disjoint_blocks m b y"
      using dis y(1) by blast
    moreover have "disjoint_blocks m y ?p"
      using lists_ok_disjoint [OF ok y(1) pl y(2)] .
    ultimately show "unat y + unat (get_size m1 y) \<le> unat ?p \<or> unat ?p + unat ?t \<le> unat y"
      using ub up upb ut s by (auto simp: disjoint_blocks_def)
  qed
  have t: "?t AND 0xF = 0" "32 \<le> unat ?t" "unat ?p + unat ?t < 2 ^ 64"
    using ub up upb ut by (simp_all add: low_bits_add low_bits_get_size)
  from coalesce_finish_merged [OF ok1 pn t out al, of "get_prev_alloc m1 ?p"]
  obtain m' where fin: "coalesce_finish (write_block m1 ?p ?t False (get_prev_alloc m1 ?p)) a1 ?p
                          = Inr (?p, m', a1)"
    and res: "get_size m' ?p = ?t" "\<not> get_alloc m' ?p"
    and ch: "\<forall>c<MAXLISTS. fl_path m' NULL (seglists a1 ! c) (map (remove1 ?p) ls ! c) NULL"
    by blast
  have "coalesce_block m a b = Inr (?p, m', a1)"
    using pa na ne del fin by (simp add: coalesce_block_def Let_def)
  with res free_chains_I [OF ch] show ?thesis
    by blast
qed

lemma coalesce_both_free:
  assumes pre: "coalesce_pre m a ls b"
    and pa: "\<not> get_prev_alloc m b" and na: "\<not> get_alloc m (find_next m b)"
  shows "\<exists>m' a'. coalesce_block m a b = Inr (find_prev m b, m', a') \<and>
           \<not> get_alloc m' (find_prev m b) \<and>
           get_size m' (find_prev m b) =
             get_size m b + get_size m (find_prev m b) + get_size m (find_next m b) \<and>
           free_chains m' a' (map (remove1 (find_prev m b)) (map (remove1 (find_next m b)) ls))"
proof -
  let ?n = "find_next m b" and ?p = "find_prev m b"
  let ?nn = "find_next m ?n"
  let ?sz = "get_size m b" and ?psz = "get_size m ?p" and ?nsz = "get_size m ?n"
  let ?t = "?sz + ?psz + ?nsz"
  let ?ls1 = "map (remove1 ?n) ls"
  let ?ls2 = "map (remove1 ?p) ?ls1"
  have ok: "lists_ok m a ls" and bv: "valid_block m b"
    and dis: "\<forall>x\<in>listed ls. disjoint_blocks m b x"
    using pre by (simp_all add: coalesce_pre_def)
  have pl: "?p \<in> listed ls" and adj: "find_next m ?p = b"
    using pre pa by (auto simp: coalesce_pre_def)
  have nl: "?n \<in> listed ls" and nna: "get_alloc m ?nn"
    using pre na by (auto simp: coalesce_pre_def)
  have pv: "valid_block m ?p" and nv: "valid_block m ?n"
    using ok pl nl by (auto intro: lists_ok_valid)
  have pn: "?p \<noteq> NULL"
    using ok pl by (rule listed_nonnull)
  note ub = valid_block_unat [OF bv] and up = valid_block_unat [OF pv]
    and un = valid_block_unat [OF nv]
  have upb: "unat b = unat ?p + unat ?psz"
    using up(1) adj by simp
  have plt: "unat ?p < unat b"
    using upb up(2) by arith
  then have ne: "?p \<noteq> b"
    by auto
  have "unat ?p < unat ?n"
    using plt ub(1) by arith
  then have pnn: "?p \<noteq> ?n"
    by auto
  have ut0: "unat (?sz + ?psz) = unat ?sz + unat ?psz"
    using ub up upb by (intro unat_plus64) simp
  have "unat (?sz + ?psz) + unat ?nsz < 2 ^ 64"
    using ut0 ub un upb by simp
  then have "unat ?t = unat (?sz + ?psz) + unat ?nsz"
    by (rule unat_plus64)
  with ut0 have ut: "unat ?t = unat ?sz + unat ?psz + unat ?nsz"
    by simp
  have pb: "?p + ?psz = b"
    using adj by (simp add: find_next_def)
  have "?p + ?t = ((?p + ?psz) + ?sz) + ?nsz"
    by (simp add: ac_simps)
  then have pt: "?p + ?t = ?nn"
    by (simp only: pb find_next_def)
  from delete_ok_full [OF ok nl] obtain m1 a1
    where del1: "delete_from_free_list m a ?n = (m1, a1)"
      and ok1: "lists_ok m1 a1 ?ls1"
      and frame1: "\<And>z. (\<forall>y\<in>listed ls. outside m y z) \<Longrightarrow> m1 z = m z"
      and hdr1: "\<And>y. y \<in> listed ls \<Longrightarrow> m1 y = m y"
      and l1: "listed ?ls1 = listed ls - {?n}"
    by blast
  have pl1: "?p \<in> listed ?ls1"
    using l1 pl pnn by simp
  from delete_ok_full [OF ok1 pl1] obtain m2 a2
    where del2: "delete_from_free_list m1 a1 ?p = (m2, a2)"
      and ok2: "lists_ok m2 a2 ?ls2"
      and frame2: "\<And>z. (\<forall>y\<in>listed ?ls1. outside m1 y z) \<Longrightarrow> m2 z = m1 z"
      and hdr2: "\<And>y. y \<in> listed ?ls1 \<Longrightarrow> m2 y = m1 y"
      and l2: "listed ?ls2 = listed ?ls1 - {?p}"
    by blast
  have sz1: "get_size m1 y = get_size m y" if "y \<in> listed ls" for y
    using same_header(1) [of m1 y m] hdr1 [OF that] by simp
  have onn: "\<forall>y\<in>listed ls. outside m y ?nn"
  proof
    fix y assume y: "y \<in> listed ls"
    show "outside m y ?nn"
    proof (cases "y = ?n")
      case True
      then show ?thesis
        using un by (simp add: outside_def)
    next
      case False
      from lists_ok_disjoint [OF ok y nl False] show ?thesis
        using un by (auto simp: disjoint_blocks_def outside_def)
    qed
  qed
  then have "m1 ?nn = m ?nn"
    by (rule frame1)
  moreover have "m2 ?nn = m1 ?nn"
  proof (rule frame2, rule ballI)
    fix y assume "y \<in> listed ?ls1"
    with l1 have y: "y \<in> listed ls"
      by simp
    with onn have "outside m y ?nn"
      by blast
    then show "outside m1 y ?nn"
      using sz1 [OF y] by (simp add: outside_def)
  qed
  ultimately have "m2 ?nn = m ?nn"
    by simp
  then have al: "get_alloc m2 (?p + ?t)"
    using nna pt same_header(2) [of m2 ?nn m] by simp
  have out: "\<forall>y\<in>listed ?ls2.
               unat y + unat (get_size m2 y) \<le> unat ?p \<or> unat ?p + unat ?t \<le> unat y"
  proof
    fix y assume "y \<in> listed ?ls2"
    with l1 l2 have y: "y \<in> listed ls" "y \<noteq> ?p" "y \<noteq> ?n" "y \<in> listed ?ls1"
      by auto
    have "get_size m2 y = get_size m1 y"
      using same_header(1) [of m2 y m1] hdr2 [OF y(4)] by simp
    then have s: "get_size m2 y = get_size m y"
      using sz1 [OF y(1)] by simp
    have "32 \<le> unat (get_size m y)"
      using lists_ok_valid [OF ok y(1)] by (simp add: valid_block_def)
    moreover have "disjoint_blocks m b y"
      using dis y(1) by blast
    moreover have "disjoint_blocks m y ?p"
      using lists_ok_disjoint [OF ok y(1) pl y(2)] .
    moreover have "disjoint_blocks m y ?n"
      using lists_ok_disjoint [OF ok y(1) nl y(3)] .
    ultimately show "unat y + unat (get_size m2 y) \<le> unat ?p \<or> unat ?p + unat ?t \<le> unat y"
      using ub up un upb ut s by (auto simp: disjoint_blocks_def)
  qed
  have t: "?t AND 0xF = 0" "32 \<le> unat ?t" "unat ?p + unat ?t < 2 ^ 64"
    using ub up un upb ut by (simp_all add: low_bits_add low_bits_get_size)
  from coalesce_finish_merged [OF ok2 pn t out al, of "get_prev_alloc m2 ?p"]
  obtain m' where fin: "coalesce_finish (write_block m2 ?p ?t False (get_prev_alloc m2 ?p)) a2 ?p
                          = Inr (?p, m', a2)"
    and res: "get_size m' ?p = ?t" "\<not> get_alloc m' ?p"
    and ch: "\<forall>c<MAXLISTS. fl_path m' NULL (seglists a2 ! c) (?ls2 ! c) NULL"
    by blast
  have "coalesce_block m a b = Inr (?p, m', a2)"
    using pa na ne del1 del2 fin by (simp add: coalesce_block_def Let_def)
  with res free_chains_I [OF ch] show ?thesis
    by blast
qed

lemma free_chains_nth:
  assumes "free_chains m a ls1" and "\<And>c. c < MAXLISTS \<Longrightarrow> ls2 ! c = ls1 ! c"
  shows "free_chains m a ls2"
  using assms by (simp add: free_chains_def)

lemma remove1_filter_one:
  "distinct xs \<Longrightarrow> filter (\<lambda>x. x \<noteq> u) xs = remove1 u xs"
  by (simp add: remove1_as_filter)

lemma remove1_filter_two:
  assumes "distinct xs"
  shows "filter (\<lambda>x. x \<noteq> u \<and> x \<noteq> v) xs = remove1 v (remove1 u xs)"
proof -
  have "remove1 v (remove1 u xs) = filter (\<lambda>y. y \<noteq> v) (filter (\<lambda>y. y \<noteq> u) xs)"
    using assms by (simp add: remove1_as_filter)
  also have "\<dots> = filter (\<lambda>x. x \<noteq> u \<and> x \<noteq> v) xs"
    by (simp add: conj_commute)
  finally show ?thesis
    by simp
qed

text \<open>
  Claim C8: for a free block \<open>b\<close> on a heap that satisfies the boundary-tag and free-list
  invariants (\<open>coalesce_pre\<close>), \<open>coalesce_block\<close> follows the four cases of
  (\<open>prev_alloc\<close> of \<open>b\<close>, \<open>alloc\<close> of the next block).  With both allocated it returns \<open>b\<close>
  and changes nothing.  In every case it returns, without a fault, \<open>b\<close> when the preceding
  block is allocated and the preceding block otherwise; the returned block is free; its
  size is the sum of the sizes of \<open>b\<close> and of its free neighbours; and every free list is
  the list it was without those neighbours.
\<close>

theorem coalesce_block_cases:
  assumes pre: "coalesce_pre m a ls b"
  shows "(get_prev_alloc m b \<and> get_alloc m (find_next m b) \<longrightarrow>
            coalesce_block m a b = Inr (b, m, a)) \<and>
         (\<exists>m' a'.
            coalesce_block m a b =
              Inr (if get_prev_alloc m b then b else find_prev m b, m', a') \<and>
            \<not> get_alloc m' (if get_prev_alloc m b then b else find_prev m b) \<and>
            get_size m' (if get_prev_alloc m b then b else find_prev m b) =
              get_size m b + sum_list (map (get_size m) (merged_neighbours m b)) \<and>
            free_chains m' a' (map (filter (\<lambda>x. x \<notin> set (merged_neighbours m b))) ls))"
proof -
  let ?n = "find_next m b" and ?p = "find_prev m b"
  let ?M = "merged_neighbours m b"
  let ?ls' = "map (filter (\<lambda>x. x \<notin> set ?M)) ls"
  have ok: "lists_ok m a ls" and bf: "\<not> get_alloc m b"
    using pre by (simp_all add: coalesce_pre_def)
  have len: "length ls = MAXLISTS"
    using lists_ok_len [OF ok] by simp
  have nth': "?ls' ! c = filter (\<lambda>x. x \<notin> set ?M) (ls ! c)" if "c < MAXLISTS" for c
    using that len by simp
  have both: "coalesce_block m a b = Inr (b, m, a)"
    if "get_prev_alloc m b" "get_alloc m ?n"
    using that by (simp add: coalesce_block_def Let_def)
  have "\<exists>m' a'.
          coalesce_block m a b = Inr (if get_prev_alloc m b then b else ?p, m', a') \<and>
          \<not> get_alloc m' (if get_prev_alloc m b then b else ?p) \<and>
          get_size m' (if get_prev_alloc m b then b else ?p) =
            get_size m b + sum_list (map (get_size m) ?M) \<and>
          free_chains m' a' ?ls'"
  proof (cases "get_prev_alloc m b")
    case pa: True
    show ?thesis
    proof (cases "get_alloc m ?n")
      case na: True
      have M: "?M = []"
        using pa na by (simp add: merged_neighbours_def)
      have "free_chains m a ls"
        using ok by (simp add: free_chains_def lists_ok_def)
      then have "free_chains m a ?ls'"
        by (rule free_chains_nth) (use len in \<open>simp add: M\<close>)
      with both [OF pa na] bf pa M show ?thesis
        by auto
    next
      case na: False
      have M: "?M = [?n]"
        using pa na by (simp add: merged_neighbours_def)
      from coalesce_next_free [OF pre pa na] obtain m' a'
        where r: "coalesce_block m a b = Inr (b, m', a')" "\<not> get_alloc m' b"
          "get_size m' b = get_size m b + get_size m ?n"
          and ch: "free_chains m' a' (map (remove1 ?n) ls)"
        by blast
      have "free_chains m' a' ?ls'"
        using ch
      proof (rule free_chains_nth)
        fix c assume c: "c < MAXLISTS"
        then show "?ls' ! c = map (remove1 ?n) ls ! c"
          using len lists_ok_distinct [OF ok c] by (simp add: M remove1_filter_one)
      qed
      with r pa M show ?thesis
        by auto
    qed
  next
    case pa: False
    show ?thesis
    proof (cases "get_alloc m ?n")
      case na: True
      have M: "?M = [?p]"
        using pa na by (simp add: merged_neighbours_def)
      from coalesce_prev_free [OF pre pa na] obtain m' a'
        where r: "coalesce_block m a b = Inr (?p, m', a')" "\<not> get_alloc m' ?p"
          "get_size m' ?p = get_size m b + get_size m ?p"
          and ch: "free_chains m' a' (map (remove1 ?p) ls)"
        by blast
      have "free_chains m' a' ?ls'"
        using ch
      proof (rule free_chains_nth)
        fix c assume c: "c < MAXLISTS"
        then show "?ls' ! c = map (remove1 ?p) ls ! c"
          using len lists_ok_distinct [OF ok c] by (simp add: M remove1_filter_one)
      qed
      with r pa M show ?thesis
        by auto
    next
      case na: False
      have M: "?M = [?n, ?p]"
        using pa na by (simp add: merged_neighbours_def)
      from coalesce_both_free [OF pre pa na] obtain m' a'
        where r: "coalesce_block m a b = Inr (?p, m', a')" "\<not> get_alloc m' ?p"
          "get_size m' ?p = get_size m b + get_size m ?p + get_size m ?n"
          and ch: "free_chains m' a' (map (remove1 ?p) (map (remove1 ?n) ls))"
        by blast
      have "free_chains m' a' ?ls'"
        using ch
      proof (rule free_chains_nth)
        fix c assume c: "c < MAXLISTS"
        then show "?ls' ! c = map (remove1 ?p) (map (remove1 ?n) ls) ! c"
          using len lists_ok_distinct [OF ok c] by (simp add: M remove1_filter_two)
      qed
      with r pa M show ?thesis
        by (auto simp: ac_simps)
    qed
  qed
  with both show ?thesis
    by blast
qed

text \<open>The example heap satisfies the precondition, and the model reaches it: it is the
  memory in which \<open>truly_free\<close> of the second of four 24-byte allocations, made after the
  first and the third were freed, calls \<open>coalesce_block\<close>.\<close>

lemma merge_heap_sizes:
  "get_size merge_heap 0x10000008 = 32" "get_size merge_heap 0x10000028 = 32"
  "get_size merge_heap 0x10000048 = 32" "get_size merge_heap 0x10000088 = 20352"
  by code_simp+

lemma merge_heap_lists_ok: "lists_ok merge_heap merge_arena merge_lists"
proof -
  have 1: "length merge_lists = MAXLISTS \<and> length (seglists merge_arena) = MAXLISTS \<and>
           (\<forall>c\<in>set [0..<MAXLISTS].
              fl_path merge_heap NULL (seglists merge_arena ! c) (merge_lists ! c) NULL \<and>
              distinct (merge_lists ! c) \<and>
              (\<forall>x\<in>set (merge_lists ! c). find_list_for_block merge_heap x = c))"
    by code_simp
  have 2: "listed merge_lists = {0x10000048, 0x10000008, 0x10000088}"
  proof -
    have "concat merge_lists = [0x10000048, 0x10000008, 0x10000088]"
      by code_simp
    then show ?thesis
      by (simp add: listed_def)
  qed
  have 3: "\<forall>x\<in>listed merge_lists. valid_block merge_heap x \<and>
             (\<forall>y\<in>listed merge_lists. x = y \<or> disjoint_blocks merge_heap x y)"
    unfolding 2 by (simp add: valid_block_def disjoint_blocks_def merge_heap_sizes)
  from 1 3 show ?thesis
    unfolding lists_ok_def by blast
qed

lemma merge_heap_pre: "coalesce_pre merge_heap merge_arena merge_lists 0x10000028"
proof -
  have 2: "listed merge_lists = {0x10000048, 0x10000008, 0x10000088}"
  proof -
    have "concat merge_lists = [0x10000048, 0x10000008, 0x10000088]"
      by code_simp
    then show ?thesis
      by (simp add: listed_def)
  qed
  have 3: "\<not> get_alloc merge_heap 0x10000028"
    "find_next merge_heap 0x10000028 = 0x10000048"
    "\<not> get_alloc merge_heap 0x10000048"
    "get_alloc merge_heap (find_next merge_heap 0x10000048)"
    "\<not> get_prev_alloc merge_heap 0x10000028"
    "find_prev merge_heap 0x10000028 = 0x10000008"
    "find_next merge_heap 0x10000008 = 0x10000028"
    by code_simp+
  have 4: "valid_block merge_heap 0x10000028"
    "\<forall>x\<in>listed merge_lists. disjoint_blocks merge_heap 0x10000028 x"
    unfolding 2 by (simp_all add: valid_block_def disjoint_blocks_def merge_heap_sizes)
  show ?thesis
    unfolding coalesce_pre_def using merge_heap_lists_ok 3 4 by (simp add: 2)
qed

lemma free_chains_D:
  "free_chains m a ls \<Longrightarrow> c < MAXLISTS \<Longrightarrow> fl_path m NULL (seglists a ! c) (ls ! c) NULL"
  by (simp add: free_chains_def)

theorem coalesce_block_cases_witness:
  "\<exists>m' a'. coalesce_block merge_heap merge_arena 0x10000028 = Inr (0x10000008, m', a') \<and>
     \<not> get_alloc m' 0x10000008 \<and> get_size m' 0x10000008 = 96 \<and>
     fl_path m' NULL (seglists a' ! 0) [] NULL \<and>
     fl_path m' NULL (seglists a' ! 9) [0x10000088] NULL"
proof -
  let ?L = "(replicate MAXLISTS [])[9 := [0x10000088 :: addr]]"
  have 1: "\<not> get_prev_alloc merge_heap 0x10000028"
    by code_simp
  have 2: "find_prev merge_heap 0x10000028 = 0x10000008"
    by code_simp
  have 3: "get_size merge_heap 0x10000028 +
             sum_list (map (get_size merge_heap) (merged_neighbours merge_heap 0x10000028)) = 96"
    by code_simp
  have 4: "map (filter (\<lambda>x. x \<notin> set (merged_neighbours merge_heap 0x10000028))) merge_lists = ?L"
    by code_simp
  from coalesce_block_cases [OF merge_heap_pre]
  have "\<exists>m' a'. coalesce_block merge_heap merge_arena 0x10000028 = Inr (0x10000008, m', a') \<and>
          \<not> get_alloc m' 0x10000008 \<and> get_size m' 0x10000008 = 96 \<and> free_chains m' a' ?L"
    unfolding 4 3 by (simp only: 1 2 if_False)
  then obtain m' a'
    where r: "coalesce_block merge_heap merge_arena 0x10000028 = Inr (0x10000008, m', a')"
      "\<not> get_alloc m' 0x10000008" "get_size m' 0x10000008 = 96"
      and ch: "free_chains m' a' ?L"
    by blast
  have "fl_path m' NULL (seglists a' ! 0) (?L ! 0) NULL"
    "fl_path m' NULL (seglists a' ! 9) (?L ! 9) NULL"
    using free_chains_D [OF ch, of 0] free_chains_D [OF ch, of 9] by (simp_all add: MAXLISTS_def)
  then have "fl_path m' NULL (seglists a' ! 0) [] NULL"
    "fl_path m' NULL (seglists a' ! 9) [0x10000088] NULL"
    by (simp_all add: MAXLISTS_def)
  with r show ?thesis
    by blast
qed

text \<open>
  The allocator builds that heap: on a registry of one arena, four \<open>arena_malloc(24)\<close>,
  the first and the third block freed, and the second marked free as \<open>truly_free\<close> does
  before it calls \<open>coalesce_block\<close>.
\<close>

lemma merge_heap_reached:
  "case arenas_init 0x1000 mmap_at process_start 1 of
     Inr st0 \<Rightarrow>
       (case arena_malloc MAP_FAILED st0 24 of
          Inr (p1, st1) \<Rightarrow>
            (case arena_malloc MAP_FAILED st1 24 of
               Inr (p2, st2) \<Rightarrow>
                 (case arena_malloc MAP_FAILED st2 24 of
                    Inr (p3, st3) \<Rightarrow>
                      (case arena_malloc MAP_FAILED st3 24 of
                         Inr (p4, st4) \<Rightarrow>
                           (case truly_free st4 (payload_to_header p1) of
                              Inr st5 \<Rightarrow>
                                (case truly_free st5 (payload_to_header p3) of
                                   Inr st6 \<Rightarrow>
                                     (let m = memory st6;
                                          b = payload_to_header p2;
                                          m7 = write_block m b (get_size m b) False
                                                 (get_prev_alloc m b);
                                          next = find_next m7 b;
                                          m8 = write_block m7 next (get_size m7 next)
                                                 (get_alloc m7 next) False
                                      in b = 0x10000028 \<and> arenas st6 ! 0 = merge_arena \<and>
                                         map m8 merge_addrs = map merge_heap merge_addrs)
                                 | Inl _ \<Rightarrow> False)
                            | Inl _ \<Rightarrow> False)
                       | Inl _ \<Rightarrow> False)
                  | Inl _ \<Rightarrow> False)
             | Inl _ \<Rightarrow> False)
        | Inl _ \<Rightarrow> False)
   | Inl _ \<Rightarrow> False"
  by code_simp

end
